theory Spec2Isabelle
  imports Complex_Main
begin

section \<open>Conventions of the embedding\<close>

text \<open>
  The two AudioWorklet processors of the repository are embedded function by function.
  A JavaScript object is a record, a method is a function from the record to the
  updated record, and a message posted on the processor's port is appended to a list
  kept in the record. The global \<open>sampleRate\<close> of the AudioWorklet scope is a
  parameter \<open>sr\<close> of every function that reads it.

  Samples and the metrics in seconds are IEEE floats in the source; here they are
  real numbers, so a product or a quotient is the exact one. Sample counts, offsets and
  lengths are integers in the source and here. Where an integer is computed from
  doubles, the rounding to a double is modelled, by \<open>fl\<close> defined below. In the
  resampler of the capture chunker the indices and the output length are floors of
  double-precision products and quotients, and every such product and quotient is
  rounded. The sample counts of the playout buffer are rounded from milliseconds; at an
  integer sample rate the rounding to a double does not change them (lemma
  \<open>asSamples_double\<close>), and \<open>asSamples\<close> is written with the exact quotient.

  A function whose JavaScript can throw returns an option, \<open>None\<close> standing for
  the exception.
\<close>

type_synonym sample = real


section \<open>Rounding to a double\<close>

text \<open>
  JavaScript numbers are IEEE 754 binary64 values, and \<open>*\<close> and \<open>/\<close> return the exact
  product or quotient rounded to the nearest such value, a tie going to the one whose
  last bit is even. \<open>fl\<close> is that rounding on the reals: a double of binary exponent
  \<open>e\<close> is an integer multiple of \<open>2 ^ (e - 52)\<close>, and below \<open>2 ^ (- 1022)\<close> the doubles
  are the multiples of \<open>2 ^ (- 1074)\<close>. Infinity is not a real: a quotient too large for
  a double stays a large real, which fails the test on the array length as Infinity does.

  \<open>ilog2 n\<close> is the position of the highest bit of \<open>n\<close>, and \<open>binade a\<close> the binary
  exponent of a positive \<open>a\<close>, the \<open>e\<close> with \<open>2 ^ e \<le> a < 2 ^ (e + 1)\<close>.
\<close>

fun ilog2 :: "nat \<Rightarrow> nat" where
  "ilog2 n = (if n < 2 then 0 else Suc (ilog2 (n div 2)))"

declare ilog2.simps [simp del]

definition binade :: "real \<Rightarrow> int" where
  "binade a = (if 1 \<le> a then int (ilog2 (nat \<lfloor>a\<rfloor>))
               else - (int (ilog2 (nat (\<lceil>1 / a\<rceil> - 1))) + 1))"

text \<open>The nearest integer, a tie going to the even one.\<close>

definition rne :: "real \<Rightarrow> int" where
  "rne q = (let f = \<lfloor>q\<rfloor> in
              if q - of_int f < 1 / 2 then f
              else if 1 / 2 < q - of_int f then f + 1
              else if even f then f else f + 1)"

definition fl :: "real \<Rightarrow> real" where
  "fl x = (if x = 0 then 0
           else
             let e = max (binade \<bar>x\<bar>) (- 1022);
                 ulp = 2 powi (e - 52)
             in sgn x * of_int (rne (\<bar>x\<bar> / ulp)) * ulp)"


section \<open>Capture chunker (\<open>src/frontend/joshua-frontend/joshua-mic-processor.js\<close>)\<close>

definition TARGET_SAMPLE_RATE :: real where
  "TARGET_SAMPLE_RATE = 24000"

definition CHUNK_DURATION :: real where
  "CHUNK_DURATION = 8 / 100"

text \<open>The product is 1920, also as the source computes it in IEEE doubles.\<close>

definition SAMPLES_PER_CHUNK :: real where
  "SAMPLES_PER_CHUNK = TARGET_SAMPLE_RATE * CHUNK_DURATION"

text \<open>The object posted for every chunk (its constant \<open>type: 'audioChunk'\<close> left out).\<close>

record chunk_msg =
  msg_data :: "sample list"
  msg_sampleRate :: real
  msg_duration :: real
  msg_samples :: nat

record mic =
  pcmBuffer :: "sample list"
  isRecording :: bool
  mic_port :: "chunk_msg list"

datatype command = Start | Stop | Other_command

text \<open>The fields the constructor sets on a new processor.\<close>

definition mic_constructor :: mic where
  "mic_constructor = \<lparr>pcmBuffer = [], isRecording = False, mic_port = []\<rparr>"

text \<open>The handler installed on \<open>port.onmessage\<close> by the constructor.\<close>

fun mic_onmessage :: "command \<Rightarrow> mic \<Rightarrow> mic" where
  "mic_onmessage Start m = m\<lparr>isRecording := True, pcmBuffer := []\<rparr>"
| "mic_onmessage Stop m = m\<lparr>isRecording := False\<rparr>"
| "mic_onmessage Other_command m = m"

text \<open>\<open>inputData[srcIndex] || 0\<close>: a read outside the array is \<open>undefined\<close>, which
  \<open>||\<close> replaces by 0 (as it does a sample that is 0 already).\<close>

definition index_or_zero :: "sample list \<Rightarrow> int \<Rightarrow> sample" where
  "index_or_zero xs j = (if 0 \<le> j \<and> j < int (length xs) then xs ! nat j else 0)"

text \<open>
  \<open>resampleTo24kHz\<close>. \<open>sourceSampleRate\<close> is the double held by the global
  \<open>sampleRate\<close>; \<open>inputData.length\<close> and \<open>i\<close> are integers, which are doubles.
  \<open>ratio\<close>, \<open>inputData.length / ratio\<close> and \<open>i * ratio\<close> are each one rounded
  operation. \<open>new Array(outputLength)\<close> throws a RangeError unless \<open>outputLength\<close> is
  an integer from 0 to \<open>2^32 - 1\<close>; a zero ratio makes the quotient infinite or NaN.
\<close>

definition resampleTo24kHz :: "sample list \<Rightarrow> real \<Rightarrow> sample list option" where
  "resampleTo24kHz inputData sourceSampleRate =
     (if sourceSampleRate = TARGET_SAMPLE_RATE then Some inputData
      else
        let ratio = fl (sourceSampleRate / TARGET_SAMPLE_RATE) in
        if ratio = 0 then None
        else
          let outputLength = \<lfloor>fl (real (length inputData) / ratio)\<rfloor> in
          if outputLength < 0 \<or> 2 ^ 32 \<le> outputLength then None
          else Some (map (\<lambda>i. let srcIndex = \<lfloor>fl (real i * ratio)\<rfloor>
                               in index_or_zero inputData srcIndex)
                         [0 ..< nat outputLength]))"

text \<open>The \<open>while\<close> loop of \<open>process\<close>: \<open>splice(0, SAMPLES_PER_CHUNK)\<close> removes the
  chunk from the front of the buffer, and the chunk is posted.\<close>

function emit_chunks :: "mic \<Rightarrow> mic" where
  "emit_chunks m =
     (if SAMPLES_PER_CHUNK \<le> real (length (pcmBuffer m)) then
        let chunk = take (nat \<lfloor>SAMPLES_PER_CHUNK\<rfloor>) (pcmBuffer m);
            m1 = m\<lparr>pcmBuffer := drop (nat \<lfloor>SAMPLES_PER_CHUNK\<rfloor>) (pcmBuffer m)\<rparr>;
            m2 = m1\<lparr>mic_port := mic_port m1 @
                    [\<lparr>msg_data = chunk, msg_sampleRate = TARGET_SAMPLE_RATE,
                      msg_duration = CHUNK_DURATION, msg_samples = length chunk\<rparr>]\<rparr>
        in emit_chunks m2
      else m)"
  by pat_completeness auto
termination
  by (relation "measure (\<lambda>m. length (pcmBuffer m))")
     (auto simp: SAMPLES_PER_CHUNK_def TARGET_SAMPLE_RATE_def CHUNK_DURATION_def)

declare emit_chunks.simps [simp del]

text \<open>\<open>process(inputs, outputs, parameters)\<close>; \<open>inputs\<close> is a list of inputs, an
  input a list of channels, a channel a list of samples. The method always returns
  \<open>true\<close>, which is left out.\<close>

definition mic_process :: "real \<Rightarrow> sample list list list \<Rightarrow> mic \<Rightarrow> mic option" where
  "mic_process sr inputs m =
     (if \<not> isRecording m then Some m
      else case inputs of
        [] \<Rightarrow> Some m
      | input # _ \<Rightarrow>
          (case input of
             [] \<Rightarrow> Some m
           | inputChannel # _ \<Rightarrow>
               if inputChannel = [] then Some m
               else (case resampleTo24kHz inputChannel sr of
                       None \<Rightarrow> None
                     | Some resampledData \<Rightarrow>
                         Some (emit_chunks (m\<lparr>pcmBuffer := pcmBuffer m @ resampledData\<rparr>)))))"

text \<open>A sequence of render callbacks, one \<open>inputs\<close> value each.\<close>

fun mic_run :: "real \<Rightarrow> sample list list list list \<Rightarrow> mic \<Rightarrow> mic option" where
  "mic_run sr [] m = Some m"
| "mic_run sr (inputs # rest) m =
     (case mic_process sr inputs m of None \<Rightarrow> None | Some m' \<Rightarrow> mic_run sr rest m')"

text \<open>What one callback appends to the accumulator while recording: the resampled first
  channel of the first input, nothing when that channel is missing or empty.\<close>

definition channel0 :: "sample list list list \<Rightarrow> sample list" where
  "channel0 inputs =
     (case inputs of [] \<Rightarrow> [] | input # _ \<Rightarrow> (case input of [] \<Rightarrow> [] | c # _ \<Rightarrow> c))"

definition resampled :: "real \<Rightarrow> sample list list list \<Rightarrow> sample list" where
  "resampled sr inputs =
     (if channel0 inputs = [] then []
      else case resampleTo24kHz (channel0 inputs) sr of None \<Rightarrow> [] | Some r \<Rightarrow> r)"

text \<open>The block is short enough for its resampled length, as the resampler computes it,
  to be an array length (at another rate than the target, where nothing is computed).\<close>

definition fits :: "real \<Rightarrow> sample list \<Rightarrow> bool" where
  "fits sr block =
     (sr = TARGET_SAMPLE_RATE
      \<or> (fl (sr / TARGET_SAMPLE_RATE) \<noteq> 0
          \<and> \<lfloor>fl (real (length block) / fl (sr / TARGET_SAMPLE_RATE))\<rfloor> < 2 ^ 32))"


section \<open>Adaptive playout buffer (\<open>src/unnamed/part_000\<close>, the module \<open>joshua-audio-processor.js\<close>)\<close>

text \<open>\<open>Math.round\<close> rounds a half up, as \<^const>\<open>round\<close> does.\<close>

definition asSamples :: "real \<Rightarrow> real \<Rightarrow> int" where
  "asSamples sr mili = round (mili * sr / 1000)"

definition DEFAULT_MAX_BUFFER_MS :: real where
  "DEFAULT_MAX_BUFFER_MS = 5 * 60 * 1000"

text \<open>The telemetry object posted on the port.\<close>

record telemetry =
  t_totalAudioPlayed :: real
  t_actualAudioPlayed :: real
  t_delay :: real
  t_minDelay :: real
  t_maxDelay :: real

text \<open>The fields of a \<open>JoshuaAudioProcessor\<close>; \<open>port\<close> holds the messages posted so
  far, oldest first.\<close>

record processor =
  initialBufferSamples :: int
  partialBufferSamples :: int
  maxBufferSamples :: int
  partialBufferIncrement :: int
  maxPartialWithIncrements :: int
  maxBufferSamplesIncrement :: int
  maxMaxBufferWithIncrements :: int
  frames :: "sample list list"
  offsetInFirstBuffer :: nat
  firstOut :: bool
  remainingPartialBufferSamples :: int
  timeInStream :: real
  started :: bool
  totalAudioPlayed :: real
  actualAudioPlayed :: real
  maxDelay :: real
  minDelay :: real
  pidx :: nat
  port :: "telemetry list"

definition resetStart :: "processor \<Rightarrow> processor" where
  "resetStart s = s\<lparr>started := False\<rparr>"

definition initState :: "real \<Rightarrow> processor \<Rightarrow> processor" where
  "initState sr s =
     (let s1 = s\<lparr>frames := [], offsetInFirstBuffer := 0, firstOut := False,
                  remainingPartialBufferSamples := 0, timeInStream := 0\<rparr>;
          s2 = resetStart s1;
          s3 = s2\<lparr>totalAudioPlayed := 0, actualAudioPlayed := 0, maxDelay := 0,
                   minDelay := 2000, pidx := 0\<rparr>
      in s3\<lparr>partialBufferSamples := asSamples sr 10,
             maxBufferSamples := asSamples sr DEFAULT_MAX_BUFFER_MS\<rparr>)"

text \<open>The constructor assigns the buffer lengths and calls \<open>initState\<close>, which assigns
  every other field; the record it is applied to only carries the buffer lengths and
  an empty port.\<close>

definition constructor :: "real \<Rightarrow> processor" where
  "constructor sr =
     (let frameSize = asSamples sr 80 in
      initState sr
        \<lparr>initialBufferSamples = 1 * frameSize,
         partialBufferSamples = asSamples sr 10,
         maxBufferSamples = asSamples sr DEFAULT_MAX_BUFFER_MS,
         partialBufferIncrement = asSamples sr 500,
         maxPartialWithIncrements = asSamples sr 6000,
         maxBufferSamplesIncrement = asSamples sr 500,
         maxMaxBufferWithIncrements = asSamples sr 6000,
         frames = [], offsetInFirstBuffer = 0, firstOut = False,
         remainingPartialBufferSamples = 0, timeInStream = 0, started = False,
         totalAudioPlayed = 0, actualAudioPlayed = 0, maxDelay = 0, minDelay = 0,
         pidx = 0, port = []\<rparr>)"

definition totalMaxBufferSamples :: "processor \<Rightarrow> int" where
  "totalMaxBufferSamples s =
     maxBufferSamples s + partialBufferSamples s + initialBufferSamples s"

definition currentSamples :: "processor \<Rightarrow> int" where
  "currentSamples s =
     int (sum_list (map length (frames s))) - int (offsetInFirstBuffer s)"

definition start :: "processor \<Rightarrow> processor" where
  "start s = s\<lparr>started := True,
               remainingPartialBufferSamples := partialBufferSamples s,
               firstOut := True\<rparr>"

definition canPlay :: "processor \<Rightarrow> bool" where
  "canPlay s = (started s \<and> frames s \<noteq> [] \<and> remainingPartialBufferSamples s \<le> 0)"


subsection \<open>\<open>processFrame\<close>: start threshold and overflow policy\<close>

text \<open>
  One iteration of the loop that drops the oldest samples. \<open>target\<close> is a constant of
  the source, computed before the loop from two fields the loop never assigns; the
  model computes it in the iteration. With an empty queue \<open>frames[0]\<close> is
  \<open>undefined\<close> and reading its length throws.
\<close>

definition drop_oldest_body :: "real \<Rightarrow> processor \<Rightarrow> processor option" where
  "drop_oldest_body sr s =
     (case frames s of
        [] \<Rightarrow> None
      | first # rest \<Rightarrow>
          let target = initialBufferSamples s + partialBufferSamples s;
              to_remove = min (int (length first) - int (offsetInFirstBuffer s))
                              (currentSamples s - target);
              s1 = s\<lparr>offsetInFirstBuffer := nat (int (offsetInFirstBuffer s) + to_remove)\<rparr>;
              s2 = s1\<lparr>timeInStream := timeInStream s1 + real_of_int to_remove / sr\<rparr>
          in Some (if offsetInFirstBuffer s2 = length first
                   then s2\<lparr>frames := rest, offsetInFirstBuffer := 0\<rparr>
                   else s2))"

lemma drop_oldest_body_decreases:
  assumes "initialBufferSamples s + partialBufferSamples s < currentSamples s"
    and "drop_oldest_body sr s = Some s'"
  shows "2 * length (frames s') +
           (if initialBufferSamples s' + partialBufferSamples s' < currentSamples s' then 1 else 0)
         < 2 * length (frames s) + (1::nat)"
proof -
  obtain first rest where fr: "frames s = first # rest"
    using assms(2) by (cases "frames s") (simp_all add: drop_oldest_body_def)
  define target where "target = initialBufferSamples s + partialBufferSamples s"
  define to_remove where
    "to_remove = min (int (length first) - int (offsetInFirstBuffer s)) (currentSamples s - target)"
  define off' where "off' = nat (int (offsetInFirstBuffer s) + to_remove)"
  have upd: "drop_oldest_body sr s =
      Some (if off' = length first
            then s\<lparr>offsetInFirstBuffer := off',
                   timeInStream := timeInStream s + real_of_int to_remove / sr,
                   frames := rest, offsetInFirstBuffer := 0\<rparr>
            else s\<lparr>offsetInFirstBuffer := off',
                   timeInStream := timeInStream s + real_of_int to_remove / sr\<rparr>)"
    unfolding drop_oldest_body_def Let_def target_def to_remove_def off'_def fr
    by simp
  show ?thesis
  proof (cases "off' = length first")
    case True
    then have "s' = s\<lparr>offsetInFirstBuffer := off',
                   timeInStream := timeInStream s + real_of_int to_remove / sr,
                   frames := rest, offsetInFirstBuffer := 0\<rparr>"
      using assms(2) upd by simp
    then show ?thesis using fr by simp
  next
    case False
    then have s': "s' = s\<lparr>offsetInFirstBuffer := off',
                   timeInStream := timeInStream s + real_of_int to_remove / sr\<rparr>"
      using assms(2) upd by simp
    have "to_remove = currentSamples s - target"
    proof (rule ccontr)
      assume "to_remove \<noteq> currentSamples s - target"
      then have "to_remove = int (length first) - int (offsetInFirstBuffer s)"
        by (simp add: to_remove_def min_def split: if_splits)
      then have "off' = length first" by (simp add: off'_def)
      with False show False ..
    qed
    moreover have "0 < currentSamples s - target"
      using assms(1) by (simp add: target_def)
    ultimately have "int off' = int (offsetInFirstBuffer s) + (currentSamples s - target)"
      by (simp add: off'_def)
    then have "currentSamples s' = target"
      using s' by (simp add: currentSamples_def)
    then show ?thesis using s' by (simp add: target_def)
  qed
qed

function drop_oldest :: "real \<Rightarrow> processor \<Rightarrow> processor option" where
  "drop_oldest sr s =
     (if currentSamples s > initialBufferSamples s + partialBufferSamples s then
        (case drop_oldest_body sr s of
           None \<Rightarrow> None
         | Some s' \<Rightarrow> drop_oldest sr s')
      else Some s)"
  by pat_completeness auto
termination
  by (relation "measure (\<lambda>(sr, s). 2 * length (frames s) +
        (if initialBufferSamples s + partialBufferSamples s < currentSamples s then 1 else 0))")
     (auto dest: drop_oldest_body_decreases)

declare drop_oldest.simps [simp del]

text \<open>\<open>debug\<close> does nothing, but its arguments are evaluated: \<open>this.pidx++\<close> counts the
  first twenty packets.\<close>

definition processFrame :: "real \<Rightarrow> sample list \<Rightarrow> processor \<Rightarrow> processor option" where
  "processFrame sr frame s =
     (let s1 = (if currentSamples s \<ge> initialBufferSamples s \<and> \<not> started s
                then start s else s);
          s2 = (if pidx s1 < 20 then s1\<lparr>pidx := pidx s1 + 1\<rparr> else s1);
          dropped =
            (if currentSamples s2 \<ge> totalMaxBufferSamples s2 then
               (case drop_oldest sr s2 of
                  None \<Rightarrow> None
                | Some s3 \<Rightarrow>
                    let s4 = s3\<lparr>maxBufferSamples :=
                                   maxBufferSamples s3 + maxBufferSamplesIncrement s3\<rparr>
                    in Some (s4\<lparr>maxBufferSamples :=
                                   min (maxMaxBufferWithIncrements s4) (maxBufferSamples s4)\<rparr>))
             else Some s2)
      in case dropped of
           None \<Rightarrow> None
         | Some s5 \<Rightarrow>
             Some (s5\<lparr>port := port s5 @
                      [\<lparr>t_totalAudioPlayed = totalAudioPlayed s5,
                        t_actualAudioPlayed = actualAudioPlayed s5,
                        t_delay = real_of_int (currentSamples s5) / sr,
                        t_minDelay = minDelay s5,
                        t_maxDelay = maxDelay s5\<rparr>]\<rparr>))"

datatype message = Reset | Audio "sample list" | Other_message

text \<open>The handler installed on \<open>port.onmessage\<close> by the constructor.\<close>

fun onmessage :: "real \<Rightarrow> message \<Rightarrow> processor \<Rightarrow> processor option" where
  "onmessage sr Reset s = Some (initState sr s)"
| "onmessage sr (Audio frame) s = processFrame sr frame (s\<lparr>frames := frames s @ [frame]\<rparr>)"
| "onmessage sr Other_message s = Some s"


subsection \<open>\<open>process\<close>: the render callback\<close>

text \<open>\<open>TypedArray.prototype.subarray(begin, end)\<close>: a negative index counts from the
  end, both are clamped to the array, and an end before the begin gives an empty view.\<close>

definition subarray :: "sample list \<Rightarrow> int \<Rightarrow> int \<Rightarrow> sample list" where
  "subarray xs begin end =
     (let len = int (length xs);
          b = (if begin < 0 then max (len + begin) 0 else min begin len);
          e = (if end < 0 then max (len + end) 0 else min end len)
      in take (nat (e - b)) (drop (nat b) xs))"

text \<open>\<open>TypedArray.prototype.set(source, offset)\<close> on an array \<open>target\<close>: a RangeError
  when the source does not fit at the offset.\<close>

definition array_set :: "sample list \<Rightarrow> sample list \<Rightarrow> int \<Rightarrow> sample list option" where
  "array_set target source offs =
     (if offs < 0 \<or> int (length target) < int (length source) + offs then None
      else Some (take (nat offs) target @ source @
                 drop (nat offs + length source) target))"

text \<open>The test of \<open>output.some\<close>; the literal \<open>1e-4\<close> is taken as the real number.\<close>

definition audible :: "sample \<Rightarrow> bool" where
  "audible x = (x > 1 / 10000 \<or> x < - (1 / 10000))"

text \<open>One iteration of the loop that copies queued samples to the output block.\<close>

definition drain_body ::
  "sample list \<Rightarrow> int \<Rightarrow> bool \<Rightarrow> processor \<Rightarrow> (sample list \<times> int \<times> bool \<times> processor) option"
where
  "drain_body output out_idx anyAudio s =
     (case frames s of
        [] \<Rightarrow> None
      | first # rest \<Rightarrow>
          let to_copy = min (int (length first) - int (offsetInFirstBuffer s))
                            (int (length output) - out_idx);
              subArray = subarray first (int (offsetInFirstBuffer s))
                                        (int (offsetInFirstBuffer s) + to_copy)
          in case array_set output subArray out_idx of
               None \<Rightarrow> None
             | Some output' \<Rightarrow>
                 let anyAudio' = (anyAudio \<or> list_ex audible output');
                     s1 = s\<lparr>offsetInFirstBuffer := nat (int (offsetInFirstBuffer s) + to_copy)\<rparr>;
                     out_idx' = out_idx + to_copy
                 in Some (output', out_idx', anyAudio',
                          if offsetInFirstBuffer s1 = length first
                          then s1\<lparr>offsetInFirstBuffer := 0, frames := rest\<rparr>
                          else s1))"

lemma drain_body_decreases:
  assumes "out_idx < int (length output)"
    and "drain_body output out_idx anyAudio s = Some (output', out_idx', anyAudio', s')"
  shows "2 * length (frames s') + (if out_idx' < int (length output') then 1 else 0)
         < 2 * length (frames s) + (1::nat)"
proof -
  obtain first rest where fr: "frames s = first # rest"
    using assms(2) by (cases "frames s") (simp_all add: drain_body_def)
  define to_copy where
    "to_copy = min (int (length first) - int (offsetInFirstBuffer s))
                   (int (length output) - out_idx)"
  define off' where "off' = nat (int (offsetInFirstBuffer s) + to_copy)"
  define sub where "sub = subarray first (int (offsetInFirstBuffer s))
                                        (int (offsetInFirstBuffer s) + to_copy)"
  obtain out1 where set1: "array_set output sub out_idx = Some out1"
    using assms(2)
    by (cases "array_set output sub out_idx")
       (simp_all add: drain_body_def fr Let_def sub_def to_copy_def)
  have len1: "length out1 = length output"
    using set1 by (auto simp: array_set_def split: if_splits)
  have res: "drain_body output out_idx anyAudio s =
      Some (out1, out_idx + to_copy, anyAudio \<or> list_ex audible out1,
            if off' = length first
            then s\<lparr>offsetInFirstBuffer := off', offsetInFirstBuffer := 0, frames := rest\<rparr>
            else s\<lparr>offsetInFirstBuffer := off'\<rparr>)"
    using set1 by (simp add: drain_body_def fr Let_def sub_def to_copy_def off'_def)
  show ?thesis
  proof (cases "off' = length first")
    case True
    then have "frames s' = rest" using assms(2) res by auto
    then show ?thesis using fr by simp
  next
    case False
    then have eqs: "frames s' = frames s" "out_idx' = out_idx + to_copy" "output' = out1"
      using assms(2) res by auto
    have "to_copy = int (length output) - out_idx"
    proof (rule ccontr)
      assume "to_copy \<noteq> int (length output) - out_idx"
      then have "to_copy = int (length first) - int (offsetInFirstBuffer s)"
        by (simp add: to_copy_def min_def split: if_splits)
      then have "off' = length first" by (simp add: off'_def)
      with False show False ..
    qed
    then have "\<not> out_idx' < int (length output')"
      using eqs len1 by simp
    then show ?thesis using eqs by simp
  qed
qed

function drain ::
  "sample list \<Rightarrow> int \<Rightarrow> bool \<Rightarrow> processor \<Rightarrow> (sample list \<times> int \<times> bool \<times> processor) option"
where
  "drain output out_idx anyAudio s =
     (if out_idx < int (length output) \<and> frames s \<noteq> [] then
        (case drain_body output out_idx anyAudio s of
           None \<Rightarrow> None
         | Some (output', out_idx', anyAudio', s') \<Rightarrow> drain output' out_idx' anyAudio' s')
      else Some (output, out_idx, anyAudio, s))"
  by pat_completeness auto
termination
  by (relation "measure (\<lambda>(output, out_idx, anyAudio, s). 2 * length (frames s) +
        (if out_idx < int (length output) then 1 else 0))")
     (auto dest: drain_body_decreases)

declare drain.simps [simp del]

text \<open>The two ramps: \<open>for (let i = 0; i < out_idx; i++) output[i] *= gain i\<close>. A write
  beyond the end of a typed array is ignored, as \<^const>\<open>list_update\<close> ignores it.\<close>

definition ramp :: "(nat \<Rightarrow> real) \<Rightarrow> int \<Rightarrow> sample list \<Rightarrow> sample list" where
  "ramp gain out_idx output =
     fold (\<lambda>i out. out[i := out ! i * gain i]) [0 ..< nat out_idx] output"

definition fade_in :: "int \<Rightarrow> sample list \<Rightarrow> sample list" where
  "fade_in out_idx output = ramp (\<lambda>i. real i / real_of_int out_idx) out_idx output"

definition fade_out :: "int \<Rightarrow> sample list \<Rightarrow> sample list" where
  "fade_out out_idx output =
     ramp (\<lambda>i. real_of_int (out_idx - int i) / real_of_int out_idx) out_idx output"

text \<open>\<open>process(inputs, outputs)\<close>: \<open>output\<close> is the block \<open>outputs[0][0]\<close> the host hands
  in; the result is the processor and the block as the method leaves them. The method
  always returns \<open>true\<close>, which is left out.\<close>

definition process :: "real \<Rightarrow> sample list \<Rightarrow> processor \<Rightarrow> (processor \<times> sample list) option" where
  "process sr output s =
     (let delay = real_of_int (currentSamples s) / sr;
          s1 = (if canPlay s
                then s\<lparr>maxDelay := max (maxDelay s) delay,
                       minDelay := min (minDelay s) delay\<rparr>
                else s)
      in if \<not> canPlay s1 then
           let s2 = (if actualAudioPlayed s1 > 0
                     then s1\<lparr>totalAudioPlayed :=
                                totalAudioPlayed s1 + real (length output) / sr\<rparr>
                     else s1)
           in Some (s2\<lparr>remainingPartialBufferSamples :=
                         remainingPartialBufferSamples s2 - int (length output)\<rparr>,
                    output)
         else
           case drain output 0 False s1 of
             None \<Rightarrow> None
           | Some (output1, out_idx, anyAudio, s2) \<Rightarrow>
               let (s3, output2) =
                     (if firstOut s2
                      then (s2\<lparr>firstOut := False\<rparr>, fade_in out_idx output1)
                      else (s2, output1));
                   (s4, output3) =
                     (if out_idx < int (length output) \<and> \<not> anyAudio
                      then
                        let t1 = s3\<lparr>partialBufferSamples :=
                                      partialBufferSamples s3 + partialBufferIncrement s3\<rparr>;
                            t2 = t1\<lparr>partialBufferSamples :=
                                      min (partialBufferSamples t1) (maxPartialWithIncrements t1)\<rparr>
                        in (resetStart t2, fade_out out_idx output2)
                      else (s3, output2));
                   s5 = s4\<lparr>totalAudioPlayed :=
                             totalAudioPlayed s4 + real (length output) / sr\<rparr>;
                   s6 = s5\<lparr>actualAudioPlayed :=
                             actualAudioPlayed s5 + real_of_int out_idx / sr\<rparr>
               in Some (s6\<lparr>timeInStream := timeInStream s6 + real_of_int out_idx / sr\<rparr>,
                        output3))"

text \<open>The host calls \<open>process\<close> once per render quantum with a zero-filled block.\<close>

definition renderTick :: "real \<Rightarrow> nat \<Rightarrow> processor \<Rightarrow> (processor \<times> sample list) option" where
  "renderTick sr n s = process sr (replicate n 0) s"


subsection \<open>Sequences of events\<close>

text \<open>What happens to a processor: a message arrives on its port, or the host calls
  \<open>process\<close> with a block of the given length.\<close>

datatype event = Message message | Tick nat

fun step :: "real \<Rightarrow> event \<Rightarrow> processor \<Rightarrow> processor option" where
  "step sr (Message m) s = onmessage sr m s"
| "step sr (Tick n) s = map_option fst (renderTick sr n s)"

fun run :: "real \<Rightarrow> event list \<Rightarrow> processor \<Rightarrow> processor option" where
  "run sr [] s = Some s"
| "run sr (e # es) s = (case step sr e s of None \<Rightarrow> None | Some s' \<Rightarrow> run sr es s')"

text \<open>The samples waiting in the queue, oldest first.\<close>

definition queued :: "processor \<Rightarrow> sample list" where
  "queued s = drop (offsetInFirstBuffer s) (concat (frames s))"

text \<open>The state of the queue the two loops rely on: the offset is inside the head frame,
  or it is 0 (the queue is empty, or its head is a frame of length zero).\<close>

definition queue_ok :: "processor \<Rightarrow> bool" where
  "queue_ok s =
     (offsetInFirstBuffer s = 0 \<or>
      (frames s \<noteq> [] \<and> offsetInFirstBuffer s < length (hd (frames s))))"


text \<open>What the constructor and \<open>initState\<close> establish about the buffer lengths, and
  every event keeps: they are not negative, and \<open>partialBufferSamples\<close> is at most
  its cap, also after a reset.\<close>

definition well_formed :: "real \<Rightarrow> processor \<Rightarrow> bool" where
  "well_formed sr s =
     (queue_ok s \<and> 0 \<le> initialBufferSamples s \<and> 0 \<le> partialBufferSamples s \<and>
      partialBufferSamples s \<le> maxPartialWithIncrements s \<and> 0 \<le> maxBufferSamples s \<and>
      0 \<le> partialBufferIncrement s \<and> 0 \<le> maxBufferSamplesIncrement s \<and>
      0 \<le> maxMaxBufferWithIncrements s \<and> asSamples sr 10 \<le> maxPartialWithIncrements s)"


text \<open>The frames a sequence of events pushes, and their samples in the order of
  arrival.\<close>

fun is_audio :: "event \<Rightarrow> bool" where
  "is_audio (Message (Audio frame)) = True"
| "is_audio e = False"

fun pushed :: "event list \<Rightarrow> sample list" where
  "pushed [] = []"
| "pushed (Message (Audio frame) # es) = frame @ pushed es"
| "pushed (e # es) = pushed es"

text \<open>The test of the overflow policy in \<open>processFrame\<close>, on the queue that already
  holds the pushed frame.\<close>

definition overflows :: "sample list \<Rightarrow> processor \<Rightarrow> bool" where
  "overflows frame s =
     (let s0 = s\<lparr>frames := frames s @ [frame]\<rparr>
      in currentSamples s0 \<ge> totalMaxBufferSamples s0)"

text \<open>No push of the sequence meets the test of the overflow policy.\<close>

fun overflow_free :: "real \<Rightarrow> event list \<Rightarrow> processor \<Rightarrow> bool" where
  "overflow_free sr [] s = True"
| "overflow_free sr (e # es) s =
     ((case e of Message (Audio frame) \<Rightarrow> \<not> overflows frame s | _ \<Rightarrow> True) \<and>
      (case step sr e s of None \<Rightarrow> False | Some s' \<Rightarrow> overflow_free sr es s'))"

text \<open>
  A sequence of pushes and render callbacks (no reset) in which, at every push, the
  number of samples pushed so far, the new frame included, is below
  \<open>totalMaxBufferSamples\<close> as it is at that moment; \<open>tot\<close> counts the samples
  pushed before the sequence.
\<close>

fun within_budget :: "real \<Rightarrow> nat \<Rightarrow> event list \<Rightarrow> processor \<Rightarrow> bool" where
  "within_budget sr tot [] s = True"
| "within_budget sr tot (Message (Audio frame) # es) s =
     (int (tot + length frame) < totalMaxBufferSamples s \<and>
      (case step sr (Message (Audio frame)) s of
         None \<Rightarrow> True
       | Some s' \<Rightarrow> within_budget sr (tot + length frame) es s'))"
| "within_budget sr tot (Message Reset # es) s = False"
| "within_budget sr tot (e # es) s =
     (case step sr e s of None \<Rightarrow> True | Some s' \<Rightarrow> within_budget sr tot es s')"


section \<open>Properties of the capture chunker\<close>

subsection \<open>Rounding to a double\<close>

lemma ilog2_bounds: "0 < n \<Longrightarrow> 2 ^ ilog2 n \<le> n \<and> n < 2 ^ (ilog2 n + 1)"
proof (induction n rule: ilog2.induct)
  case (1 n)
  show ?case
  proof (cases "n < 2")
    case True
    then have "n = 1" using "1.prems" by simp
    then show ?thesis by (simp add: ilog2.simps)
  next
    case False
    then have h: "0 < n div 2" by simp
    have e: "ilog2 n = Suc (ilog2 (n div 2))" using False by (subst ilog2.simps) simp
    from "1.IH" [OF False h] show ?thesis unfolding e by auto
  qed
qed


lemma ilog2_real_bounds:
  assumes "0 < n"
  shows "(2::real) ^ ilog2 n \<le> real n" and "real n + 1 \<le> 2 ^ (ilog2 n + 1)"
proof -
  have "2 ^ ilog2 n \<le> n" and "n + 1 \<le> 2 ^ (ilog2 n + 1)"
    using ilog2_bounds [OF assms] by simp_all
  then have "real (2 ^ ilog2 n) \<le> real n" and "real (n + 1) \<le> real (2 ^ (ilog2 n + 1))"
    by (simp_all only: of_nat_le_iff)
  then show "(2::real) ^ ilog2 n \<le> real n" and "real n + 1 \<le> 2 ^ (ilog2 n + 1)"
    by simp_all
qed

lemma binade_bounds:
  assumes "0 < a"
  shows "2 powi (binade a) \<le> a" and "a < 2 powi (binade a + 1)"
proof -
  have "2 powi (binade a) \<le> a \<and> a < 2 powi (binade a + 1)"
  proof (cases "1 \<le> a")
    case True
    define n where "n = nat \<lfloor>a\<rfloor>"
    have n: "0 < n" using True by (simp add: n_def)
    have rn: "real n \<le> a" "a < real n + 1"
      using True by (simp_all add: n_def)
    have b: "binade a = int (ilog2 n)" using True by (simp add: binade_def n_def)
    have "(2::real) ^ ilog2 n \<le> real n" "real n + 1 \<le> 2 ^ (ilog2 n + 1)"
      using ilog2_real_bounds [OF n] by simp_all
    moreover have "(2::real) powi (int (ilog2 n)) = 2 ^ ilog2 n"
      by (simp add: power_int_def)
    moreover have "(2::real) powi (int (ilog2 n) + 1) = 2 ^ (ilog2 n + 1)"
      by (simp add: power_int_def nat_add_distrib)
    ultimately show ?thesis using rn unfolding b by linarith
  next
    case False
    define m where "m = \<lceil>1 / a\<rceil>"
    define k where "k = ilog2 (nat (m - 1))"
    have y: "1 < 1 / a" using False assms by simp
    then have m2: "2 \<le> m" unfolding m_def by linarith
    have ym: "1 / a \<le> of_int m" "of_int m - 1 < 1 / a"
      unfolding m_def by linarith+
    have n: "0 < nat (m - 1)" using m2 by simp
    have "(2::real) ^ k \<le> real (nat (m - 1))" "real (nat (m - 1)) + 1 \<le> 2 ^ (k + 1)"
      using ilog2_real_bounds [OF n] by (simp_all add: k_def)
    moreover have "real (nat (m - 1)) = of_int m - 1" using m2 by simp
    ultimately have kb: "(2::real) ^ k \<le> of_int m - 1" "of_int m \<le> (2::real) ^ (k + 1)"
      by simp_all
    have b: "binade a = - (int k + 1)" using False by (simp add: binade_def k_def m_def)
    have p1: "(2::real) powi (- (int k + 1)) = 1 / 2 ^ (k + 1)"
      by (simp add: power_int_def nat_add_distrib field_simps)
    have p2: "(2::real) powi (- (int k + 1) + 1) = 1 / 2 ^ k"
      by (simp add: power_int_def field_simps)
    have "1 / a \<le> 2 ^ (k + 1)" using ym(1) kb(2) by linarith
    then have lo: "1 / 2 ^ (k + 1) \<le> a"
      using assms by (simp add: field_simps)
    have "2 ^ k < 1 / a" using ym(2) kb(1) by linarith
    then have hi: "a < 1 / 2 ^ k"
      using assms by (simp add: field_simps)
    show ?thesis unfolding b p1 p2 using lo hi by simp
  qed
  then show "2 powi (binade a) \<le> a" and "a < 2 powi (binade a + 1)" by simp_all
qed

lemma rne_error: "\<bar>of_int (rne q) - q\<bar> \<le> 1 / 2"
  unfolding rne_def Let_def by (auto; linarith)

lemma rne_of_int: "rne (of_int m) = m"
  by (simp add: rne_def)

lemma rne_nonneg: "0 \<le> q \<Longrightarrow> 0 \<le> rne q"
  unfolding rne_def Let_def by (auto; linarith)

lemma fl_zero: "fl 0 = 0"
  by (simp add: fl_def)

lemma fl_nonneg: "0 \<le> x \<Longrightarrow> 0 \<le> fl x"
  by (cases "x = 0") (simp_all add: fl_def Let_def rne_nonneg)

lemma subnormal_half_ulp: "(2::real) powi (- 1022 - 52) / 2 = 1 / 2 ^ 1075"
  by (simp add: power_int_def power_divide)

lemma fl_error:
  assumes "0 \<le> x"
  shows "\<bar>fl x - x\<bar> \<le> x / 2 ^ 53 + 1 / 2 ^ 1075"
proof (cases "x = 0")
  case True
  then show ?thesis by (simp add: fl_def)
next
  case False
  then have pos: "0 < x" using assms by simp
  define e where "e = max (binade x) (- 1022)"
  define u :: real where "u = 2 powi (e - 52)"
  define eta :: real where "eta = 1 / 2 ^ 1075"
  define x53 :: real where "x53 = x / 2 ^ 53"
  have eta: "0 \<le> eta" by (simp only: eta_def zero_le_divide_1_iff zero_le_power zero_le_numeral)
  have x53: "0 \<le> x53" using pos by (simp add: x53_def)
  have u: "0 < u" by (simp add: u_def)
  have f: "fl x = of_int (rne (x / u)) * u"
    using pos by (simp add: fl_def Let_def e_def u_def)
  have "fl x - x = (of_int (rne (x / u)) - x / u) * u"
    using u by (simp add: f left_diff_distrib)
  then have "\<bar>fl x - x\<bar> = \<bar>of_int (rne (x / u)) - x / u\<bar> * u"
    using u by (simp only: abs_mult abs_of_pos)
  also have "\<dots> \<le> 1 / 2 * u"
    using rne_error [of "x / u"] u by (intro mult_right_mono) simp_all
  finally have h: "\<bar>fl x - x\<bar> \<le> u / 2" by simp
  have "u / 2 \<le> x53 \<or> u / 2 = eta"
  proof (cases "- 1022 \<le> binade x")
    case True
    then have "e = binade x" by (simp add: e_def)
    then have "u / 2 = 2 powi (binade x) / 2 ^ 53"
      by (simp add: u_def power_int_diff)
    also have "\<dots> \<le> x / 2 ^ 53"
      using binade_bounds(1) [OF pos] by (simp add: divide_right_mono)
    finally show ?thesis by (simp add: x53_def)
  next
    case False
    then have "e = - 1022" by (simp add: e_def)
    then have "u / 2 = eta"
      unfolding u_def eta_def by (simp only: subnormal_half_ulp)
    then show ?thesis by (rule disjI2)
  qed
  then have "\<bar>fl x - x\<bar> \<le> x53 + eta"
    using h eta x53 by linarith
  then show ?thesis by (simp only: eta_def x53_def)
qed

lemma fl_error_coarse:
  assumes "0 \<le> x"
  shows "\<bar>fl x - x\<bar> \<le> x / 2 ^ 53 + 1 / 2 ^ 100"
proof -
  define eta :: real where "eta = 1 / 2 ^ 1075"
  have "(1::real) / 2 ^ 1075 \<le> 1 / 2 ^ 100"
    by (intro divide_left_mono power_increasing mult_pos_pos zero_less_power) simp_all
  then have "eta \<le> 1 / 2 ^ 100" by (simp only: eta_def)
  moreover have "\<bar>fl x - x\<bar> \<le> x / 2 ^ 53 + eta"
    using fl_error [OF assms] by (simp only: eta_def)
  ultimately show ?thesis by linarith
qed


lemma fl_exact:
  assumes "0 < m" and "m < 2 ^ 53" and "- 1074 \<le> j"
  shows "fl (of_int m * 2 powi j) = of_int m * 2 powi j"
proof -
  define x :: real where "x = of_int m * 2 powi j"
  have pos: "0 < x" using assms(1) by (simp add: x_def)
  have "of_int m < (2::real) ^ 53"
    using assms(2) by (metis of_int_less_iff of_int_numeral of_int_power)
  then have "x < 2 ^ 53 * 2 powi j"
    by (simp add: x_def)
  also have "\<dots> = 2 powi (53 + j)"
    by (simp add: power_int_add)
  finally have "2 powi (binade x) < (2::real) powi (53 + j)"
    using binade_bounds(1) [OF pos] by linarith
  then have b: "binade x < 53 + j"
    using power_int_increasing [of "53 + j" "binade x" "2::real"] by (cases "binade x < 53 + j") simp_all
  define e where "e = max (binade x) (- 1022)"
  define u :: real where "u = 2 powi (e - 52)"
  define d where "d = nat (j - (e - 52))"
  have "e - 52 \<le> j"
    using b assms(3) unfolding e_def by linarith
  then have d: "j = int d + (e - 52)"
    by (simp add: d_def)
  have u: "0 < u" by (simp add: u_def)
  have "2 powi j = 2 ^ d * u"
    by (subst d) (simp add: power_int_add u_def)
  then have q: "x / u = of_int (m * 2 ^ d)"
    using u by (simp add: x_def)
  have "fl x = of_int (rne (x / u)) * u"
    using pos by (simp add: fl_def Let_def e_def u_def)
  also have "\<dots> = of_int (m * 2 ^ d) * u"
    by (simp only: q rne_of_int)
  also have "\<dots> = x"
    using q u by (simp add: field_simps)
  finally show ?thesis by (simp only: x_def)
qed

lemma fl_of_nat:
  assumes "n < 2 ^ 53"
  shows "fl (real n) = real n"
proof (cases "n = 0")
  case True
  then show ?thesis by (simp add: fl_zero)
next
  case False
  have "int n < 2 ^ 53"
    using assms by (metis of_nat_less_iff of_nat_numeral of_nat_power)
  then show ?thesis
    using fl_exact [of "int n" 0] False by simp
qed

lemma fl_half_of_nat:
  assumes "n < 2 ^ 53"
  shows "fl (real n / 2) = real n / 2"
proof (cases "n = 0")
  case True
  then show ?thesis by (simp add: fl_zero)
next
  case False
  have "int n < 2 ^ 53"
    using assms by (metis of_nat_less_iff of_nat_numeral of_nat_power)
  then show ?thesis
    using fl_exact [of "int n" "- 1"] False by (simp add: power_int_minus field_simps)
qed

lemma fl_two: "fl 2 = 2"
  using fl_exact [of 2 0] by simp

lemma fl_one: "fl 1 = 1"
  using fl_exact [of 1 0] by simp


subsection \<open>The resampler\<close>

lemma SAMPLES_PER_CHUNK_eq: "SAMPLES_PER_CHUNK = 1920"
  by (simp add: SAMPLES_PER_CHUNK_def TARGET_SAMPLE_RATE_def CHUNK_DURATION_def)

text \<open>The source computes the same number: the double nearest to 0.08, times 24000,
  rounds to 1920.\<close>

lemma SAMPLES_PER_CHUNK_double: "fl (TARGET_SAMPLE_RATE * fl CHUNK_DURATION) = SAMPLES_PER_CHUNK"
  by code_simp

lemma resample_same_rate: "resampleTo24kHz xs TARGET_SAMPLE_RATE = Some xs"
  by (simp add: resampleTo24kHz_def)

lemma ratio_positive:
  assumes "0 < sr" and "fits sr xs" and "sr \<noteq> TARGET_SAMPLE_RATE"
  shows "0 < fl (sr / TARGET_SAMPLE_RATE)"
proof -
  have "0 \<le> fl (sr / TARGET_SAMPLE_RATE)"
    using assms(1) by (intro fl_nonneg) (simp add: TARGET_SAMPLE_RATE_def)
  moreover have "fl (sr / TARGET_SAMPLE_RATE) \<noteq> 0"
    using assms(2,3) by (simp add: fits_def)
  ultimately show ?thesis by simp
qed

lemma resample_defined:
  assumes "0 < sr" and "fits sr xs" and "sr \<noteq> TARGET_SAMPLE_RATE"
  shows "resampleTo24kHz xs sr =
           Some (map (\<lambda>i. index_or_zero xs \<lfloor>fl (real i * fl (sr / TARGET_SAMPLE_RATE))\<rfloor>)
                     [0 ..< nat \<lfloor>fl (real (length xs) / fl (sr / TARGET_SAMPLE_RATE))\<rfloor>])"
proof -
  define r where "r = fl (sr / TARGET_SAMPLE_RATE)"
  have pos: "0 < r"
    using ratio_positive [OF assms] by (simp add: r_def)
  then have ne: "r \<noteq> 0" by simp
  have "0 \<le> fl (real (length xs) / r)"
    using pos by (intro fl_nonneg) simp
  then have nonneg: "\<not> \<lfloor>fl (real (length xs) / r)\<rfloor> < 0"
    by (simp add: not_less)
  have small: "\<not> 2 ^ 32 \<le> \<lfloor>fl (real (length xs) / r)\<rfloor>"
    using assms(2,3) by (simp add: fits_def r_def not_le)
  show ?thesis
    unfolding resampleTo24kHz_def Let_def r_def [symmetric]
    using assms(3) ne nonneg small by simp
qed

lemma src_index_bounds:
  fixes r :: real and n i :: nat
  assumes r: "0 < r" and i: "int i < \<lfloor>fl (real n / r)\<rfloor>"
    and N: "\<lfloor>fl (real n / r)\<rfloor> < 2 ^ 32"
  shows "fl (real i * r) < real n"
    and "real i * r \<le> real n + real n / 2 ^ 53"
    and "real i < 2 ^ 32"
proof -
  define L where "L = real n"
  define q where "q = L / r"
  define p where "p = real i * r"
  have q0: "0 \<le> q" using r by (simp add: q_def L_def)
  have p0: "0 \<le> p" using r by (simp add: p_def)
  have Qe: "\<bar>fl q - q\<bar> \<le> q / 2 ^ 53 + 1 / 2 ^ 100"
    using fl_error_coarse [OF q0] .
  have Pe: "\<bar>fl p - p\<bar> \<le> p / 2 ^ 53 + 1 / 2 ^ 100"
    using fl_error_coarse [OF p0] .
  have "int i + 1 \<le> \<lfloor>fl q\<rfloor>" using i by (simp add: q_def L_def)
  then have "real_of_int (int i + 1) \<le> real_of_int \<lfloor>fl q\<rfloor>" by (simp only: of_int_le_iff)
  then have iQ: "real i + 1 \<le> fl q"
    using of_int_floor_le [of "fl q"] by linarith
  have Q32: "fl q < 2 ^ 32"
    using N by (simp add: q_def L_def floor_less_iff)
  have q33: "q < 2 ^ 33" using Qe Q32 q0 by (simp, linarith?)
  have qlow: "real i + 1 - 1 / 2 ^ 100 \<le> q + q / 2 ^ 53" using Qe iQ by (simp, linarith?)
  have Lq: "q * r = L" using r by (simp add: q_def)
  have "0 < q" using qlow by (simp, linarith?)
  then have "0 < L" using r Lq by (metis mult_pos_pos)
  then have L1: "1 \<le> L" by (simp add: L_def)
  have "q * r < 2 ^ 33 * r" using q33 r by (simp only: mult_less_cancel_right_pos)
  then have rlow: "L < 2 ^ 33 * r" by (simp only: Lq)
  have "(real i + 1 - 1 / 2 ^ 100) * r \<le> (q + q / 2 ^ 53) * r"
    using qlow r by (intro mult_right_mono) simp_all
  also have "\<dots> = L + L / 2 ^ 53"
    by (simp add: Lq [symmetric] algebra_simps)
  finally have C: "p + r - r / 2 ^ 100 \<le> L + L / 2 ^ 53"
    by (simp add: p_def algebra_simps)
  have "fl p < L" using Pe C rlow L1 by (simp, linarith?)
  then show "fl (real i * r) < real n" by (simp only: p_def L_def)
  have "p \<le> L + L / 2 ^ 53" using C r by (simp, linarith?)
  then show "real i * r \<le> real n + real n / 2 ^ 53" by (simp only: p_def L_def)
  show "real i < 2 ^ 32" using iQ Q32 by (simp, linarith?)
qed

lemma src_index_close:
  fixes rho :: real and n i :: nat
  assumes rho: "0 < rho" and r: "0 < fl rho" and i: "int i < \<lfloor>fl (real n / fl rho)\<rfloor>"
    and N: "\<lfloor>fl (real n / fl rho)\<rfloor> < 2 ^ 32" and n: "n < 2 ^ 32"
  shows "\<bar>\<lfloor>fl (real i * fl rho)\<rfloor> - \<lfloor>real i * rho\<rfloor>\<bar> \<le> 1"
proof -
  define L where "L = real n"
  define p where "p = real i * fl rho"
  define t where "t = real i * rho"
  have p0: "0 \<le> p" using r by (simp add: p_def)
  have t0: "0 \<le> t" using rho by (simp add: t_def)
  have Pe: "\<bar>fl p - p\<bar> \<le> p / 2 ^ 53 + 1 / 2 ^ 100"
    using fl_error_coarse [OF p0] .
  have re: "\<bar>fl rho - rho\<bar> \<le> rho / 2 ^ 53 + 1 / 2 ^ 100"
    using fl_error_coarse [of rho] rho by simp
  have "\<bar>p - t\<bar> = real i * \<bar>fl rho - rho\<bar>"
    by (simp add: p_def t_def right_diff_distrib [symmetric] abs_mult)
  also have "\<dots> \<le> real i * (rho / 2 ^ 53 + 1 / 2 ^ 100)"
    using re by (intro mult_left_mono) simp_all
  also have "\<dots> = t / 2 ^ 53 + real i / 2 ^ 100"
    by (simp add: t_def algebra_simps)
  finally have pt: "\<bar>p - t\<bar> \<le> t / 2 ^ 53 + real i / 2 ^ 100" .
  have pL: "p \<le> L + L / 2 ^ 53" and i32: "real i < 2 ^ 32"
    using src_index_bounds(2,3) [OF r i N] by (simp_all add: p_def L_def)
  have "real n < real (2 ^ 32)" using n by (simp only: of_nat_less_iff)
  then have L32: "L < 2 ^ 32" by (simp add: L_def)
  have p33: "p < 2 ^ 33" using pL L32 by (simp, linarith?)
  have "t - t / 2 ^ 53 \<le> p + real i / 2 ^ 100" using pt by (simp, linarith?)
  then have t34: "t < 2 ^ 34" using p33 i32 by (simp, linarith?)
  have a: "\<bar>fl p - p\<bar> < 1 / 2" using Pe p33 p0 by (simp, linarith?)
  have b: "\<bar>p - t\<bar> < 1 / 2" using pt t34 t0 i32 by (simp, linarith?)
  have "\<bar>fl p - t\<bar> < 1" using a b by (simp, linarith?)
  then have "\<bar>\<lfloor>fl p\<rfloor> - \<lfloor>t\<rfloor>\<bar> \<le> 1" by linarith
  then show ?thesis by (simp only: p_def t_def)
qed


subsection \<open>Chunks\<close>

lemma emit_chunks_spec:
  "\<exists>new. mic_port (emit_chunks m) = mic_port m @ new
     \<and> (\<forall>c \<in> set new. length (msg_data c) = 1920 \<and> msg_samples c = 1920
            \<and> msg_sampleRate c = TARGET_SAMPLE_RATE \<and> msg_duration c = CHUNK_DURATION)
     \<and> concat (map msg_data new) @ pcmBuffer (emit_chunks m) = pcmBuffer m
     \<and> length (pcmBuffer (emit_chunks m)) < 1920
     \<and> isRecording (emit_chunks m) = isRecording m"
proof (induction m rule: emit_chunks.induct)
  case (1 m)
  show ?case
  proof (cases "SAMPLES_PER_CHUNK \<le> real (length (pcmBuffer m))")
    case False
    then have "emit_chunks m = m" by (subst emit_chunks.simps) simp
    moreover have "length (pcmBuffer m) < 1920"
      using False by (simp add: SAMPLES_PER_CHUNK_eq)
    ultimately show ?thesis by simp
  next
    case True
    define chunk where "chunk = take 1920 (pcmBuffer m)"
    define c where "c = \<lparr>msg_data = chunk, msg_sampleRate = TARGET_SAMPLE_RATE,
                          msg_duration = CHUNK_DURATION, msg_samples = length chunk\<rparr>"
    define m2 where "m2 = m\<lparr>pcmBuffer := drop 1920 (pcmBuffer m), mic_port := mic_port m @ [c]\<rparr>"
    have len: "1920 \<le> length (pcmBuffer m)"
      using True by (simp add: SAMPLES_PER_CHUNK_eq)
    have step: "emit_chunks m = emit_chunks m2"
      using True by (subst emit_chunks.simps) (simp add: Let_def SAMPLES_PER_CHUNK_eq m2_def c_def chunk_def)
    have "\<exists>new. mic_port (emit_chunks m2) = mic_port m2 @ new
     \<and> (\<forall>c \<in> set new. length (msg_data c) = 1920 \<and> msg_samples c = 1920
            \<and> msg_sampleRate c = TARGET_SAMPLE_RATE \<and> msg_duration c = CHUNK_DURATION)
     \<and> concat (map msg_data new) @ pcmBuffer (emit_chunks m2) = pcmBuffer m2
     \<and> length (pcmBuffer (emit_chunks m2)) < 1920
     \<and> isRecording (emit_chunks m2) = isRecording m2"
      using "1.IH" [OF True refl refl refl]
      by (simp add: SAMPLES_PER_CHUNK_eq m2_def c_def chunk_def)
    then obtain new where new: "mic_port (emit_chunks m2) = mic_port m2 @ new"
      "\<forall>c \<in> set new. length (msg_data c) = 1920 \<and> msg_samples c = 1920
            \<and> msg_sampleRate c = TARGET_SAMPLE_RATE \<and> msg_duration c = CHUNK_DURATION"
      "concat (map msg_data new) @ pcmBuffer (emit_chunks m2) = pcmBuffer m2"
      "length (pcmBuffer (emit_chunks m2)) < 1920"
      "isRecording (emit_chunks m2) = isRecording m2"
      by blast
    have clen: "length chunk = 1920" using len by (simp add: chunk_def)
    have "mic_port (emit_chunks m) = mic_port m @ (c # new)"
      using new(1) step by (simp add: m2_def)
    moreover have "\<forall>d \<in> set (c # new). length (msg_data d) = 1920 \<and> msg_samples d = 1920
            \<and> msg_sampleRate d = TARGET_SAMPLE_RATE \<and> msg_duration d = CHUNK_DURATION"
      using new(2) clen by (simp add: c_def)
    moreover have "concat (map msg_data (c # new)) @ pcmBuffer (emit_chunks m) = pcmBuffer m"
      using new(3) step by (simp add: c_def chunk_def m2_def)
    moreover have "length (pcmBuffer (emit_chunks m)) < 1920" using new(4) step by simp
    moreover have "isRecording (emit_chunks m) = isRecording m" using new(5) step by (simp add: m2_def)
    ultimately show ?thesis by blast
  qed
qed

lemma mic_process_recording:
  assumes "isRecording m" and "0 < sr" and "fits sr (channel0 inputs)"
  shows "mic_process sr inputs m =
            Some (if channel0 inputs = [] then m
                  else emit_chunks (m\<lparr>pcmBuffer := pcmBuffer m @ resampled sr inputs\<rparr>))"
proof (cases "channel0 inputs = []")
  case True
  then show ?thesis
    using assms(1) by (auto simp: mic_process_def channel0_def split: list.splits)
next
  case False
  then obtain input rest c cs where sh: "inputs = input # rest" "input = c # cs" "c \<noteq> []"
    by (auto simp: channel0_def split: list.splits)
  then have c0: "channel0 inputs = c" by (simp add: channel0_def)
  obtain r where r: "resampleTo24kHz c sr = Some r"
    using resample_defined [of sr c] resample_same_rate [of c] assms(2,3) c0
    by (cases "sr = TARGET_SAMPLE_RATE") auto
  show ?thesis
    using assms(1) sh r c0 by (simp add: mic_process_def resampled_def)
qed

lemma mic_run_recording:
  assumes "isRecording m" and "0 < sr" and "\<forall>inputs \<in> set calls. fits sr (channel0 inputs)"
    and "length (pcmBuffer m) < 1920"
  shows "\<exists>m' new. mic_run sr calls m = Some m'
     \<and> mic_port m' = mic_port m @ new
     \<and> (\<forall>c \<in> set new. length (msg_data c) = 1920 \<and> msg_samples c = 1920
            \<and> msg_sampleRate c = TARGET_SAMPLE_RATE \<and> msg_duration c = CHUNK_DURATION)
     \<and> concat (map msg_data new) @ pcmBuffer m' = pcmBuffer m @ concat (map (resampled sr) calls)
     \<and> length (pcmBuffer m') < 1920"
  using assms
proof (induction calls arbitrary: m)
  case Nil
  then show ?case by simp
next
  case (Cons inputs calls)
  define m1 where "m1 = (if channel0 inputs = [] then m
                  else emit_chunks (m\<lparr>pcmBuffer := pcmBuffer m @ resampled sr inputs\<rparr>))"
  have p: "mic_process sr inputs m = Some m1"
    using mic_process_recording [of m sr inputs] Cons.prems by (simp add: m1_def)
  have r0: "channel0 inputs = [] \<Longrightarrow> resampled sr inputs = []"
    by (simp add: resampled_def)
  obtain new1 where n1: "mic_port m1 = mic_port m @ new1"
     "\<forall>c \<in> set new1. length (msg_data c) = 1920 \<and> msg_samples c = 1920
            \<and> msg_sampleRate c = TARGET_SAMPLE_RATE \<and> msg_duration c = CHUNK_DURATION"
     "concat (map msg_data new1) @ pcmBuffer m1 = pcmBuffer m @ resampled sr inputs"
     "length (pcmBuffer m1) < 1920" "isRecording m1"
  proof (cases "channel0 inputs = []")
    case True
    then show ?thesis using that [of "[]"] Cons.prems(1,4) r0 by (simp add: m1_def)
  next
    case False
    then show ?thesis
      using emit_chunks_spec [of "m\<lparr>pcmBuffer := pcmBuffer m @ resampled sr inputs\<rparr>"]
        that Cons.prems(1) by (auto simp: m1_def)
  qed
  obtain m' new where n2: "mic_run sr calls m1 = Some m'" "mic_port m' = mic_port m1 @ new"
     "\<forall>c \<in> set new. length (msg_data c) = 1920 \<and> msg_samples c = 1920
            \<and> msg_sampleRate c = TARGET_SAMPLE_RATE \<and> msg_duration c = CHUNK_DURATION"
     "concat (map msg_data new) @ pcmBuffer m' = pcmBuffer m1 @ concat (map (resampled sr) calls)"
     "length (pcmBuffer m') < 1920"
    using Cons.IH [of m1] n1(4,5) Cons.prems(2,3) by auto
  have "mic_run sr (inputs # calls) m = Some m'" using p n2(1) by simp
  moreover have "mic_port m' = mic_port m @ (new1 @ new)" using n1(1) n2(2) by simp
  moreover have "\<forall>c \<in> set (new1 @ new). length (msg_data c) = 1920 \<and> msg_samples c = 1920
            \<and> msg_sampleRate c = TARGET_SAMPLE_RATE \<and> msg_duration c = CHUNK_DURATION"
    using n1(2) n2(3) by auto
  moreover have "concat (map msg_data (new1 @ new)) @ pcmBuffer m'
        = pcmBuffer m @ concat (map (resampled sr) (inputs # calls))"
  proof -
    have "concat (map msg_data (new1 @ new)) @ pcmBuffer m'
        = concat (map msg_data new1) @ (concat (map msg_data new) @ pcmBuffer m')" by simp
    also have "\<dots> = (concat (map msg_data new1) @ pcmBuffer m1) @ concat (map (resampled sr) calls)"
      using n2(4) by simp
    also have "\<dots> = pcmBuffer m @ concat (map (resampled sr) (inputs # calls))"
      using n1(3) by simp
    finally show ?thesis .
  qed
  ultimately show ?case using n2(5) by blast
qed


text \<open>
  Claim C9, as amended. For a positive native rate and a block of fewer than \<open>2^32\<close>
  samples whose resampled length is a valid array length, the resampler returns an
  array whose element \<open>i\<close> is the input sample at index \<open>floor (i * ratio)\<close>, where
  \<open>ratio\<close> is the quotient \<open>nativeRate / targetRate\<close> rounded to a double and the
  product is rounded to a double again. That index lies inside the input and differs
  from \<open>floor (i * nativeRate / targetRate)\<close> by at most one. At the target rate the
  output is the input; at twice the target rate element \<open>i\<close> is input sample \<open>2 * i\<close>
  and the output length is the input length divided by two and rounded down.
\<close>

theorem resample_nearest_neighbour:
  assumes "0 < sr" and "fits sr xs" and "length xs < 2 ^ 32"
  shows "\<exists>out. resampleTo24kHz xs sr = Some out
      \<and> (\<forall>i < length out.
            0 \<le> \<lfloor>fl (real i * fl (sr / TARGET_SAMPLE_RATE))\<rfloor>
          \<and> \<lfloor>fl (real i * fl (sr / TARGET_SAMPLE_RATE))\<rfloor> < int (length xs)
          \<and> out ! i = xs ! nat \<lfloor>fl (real i * fl (sr / TARGET_SAMPLE_RATE))\<rfloor>
          \<and> \<bar>\<lfloor>fl (real i * fl (sr / TARGET_SAMPLE_RATE))\<rfloor>
               - \<lfloor>real i * sr / TARGET_SAMPLE_RATE\<rfloor>\<bar> \<le> 1)
      \<and> (sr = TARGET_SAMPLE_RATE \<longrightarrow> out = xs)
      \<and> (sr = 2 * TARGET_SAMPLE_RATE \<longrightarrow>
            length out = length xs div 2 \<and> (\<forall>i < length out. out ! i = xs ! (2 * i)))"
proof (cases "sr = TARGET_SAMPLE_RATE")
  case True
  have res: "resampleTo24kHz xs sr = Some xs"
    using True resample_same_rate by simp
  have ne: "sr \<noteq> 2 * TARGET_SAMPLE_RATE"
    using True by (simp add: TARGET_SAMPLE_RATE_def)
  have idx: "0 \<le> \<lfloor>fl (real i * fl (sr / TARGET_SAMPLE_RATE))\<rfloor>
          \<and> \<lfloor>fl (real i * fl (sr / TARGET_SAMPLE_RATE))\<rfloor> < int (length xs)
          \<and> xs ! i = xs ! nat \<lfloor>fl (real i * fl (sr / TARGET_SAMPLE_RATE))\<rfloor>
          \<and> \<bar>\<lfloor>fl (real i * fl (sr / TARGET_SAMPLE_RATE))\<rfloor>
               - \<lfloor>real i * sr / TARGET_SAMPLE_RATE\<rfloor>\<bar> \<le> 1" if "i < length xs" for i
  proof -
    have "i < 2 ^ 53" using that assms(3) by (simp, linarith?)
    then have "fl (real i) = real i" by (rule fl_of_nat)
    then have "\<lfloor>fl (real i * fl (sr / TARGET_SAMPLE_RATE))\<rfloor> = int i"
      and "\<lfloor>real i * sr / TARGET_SAMPLE_RATE\<rfloor> = int i"
      using True by (simp_all add: TARGET_SAMPLE_RATE_def fl_one)
    then show ?thesis using that by simp
  qed
  show ?thesis using res ne idx by blast
next
  case False
  define r where "r = fl (sr / TARGET_SAMPLE_RATE)"
  define out where "out = map (\<lambda>i. index_or_zero xs \<lfloor>fl (real i * r)\<rfloor>)
                     [0 ..< nat \<lfloor>fl (real (length xs) / r)\<rfloor>]"
  have rho: "0 < sr / TARGET_SAMPLE_RATE"
    using assms(1) by (simp add: TARGET_SAMPLE_RATE_def)
  have pos: "0 < r" using ratio_positive [OF assms(1,2) False] by (simp add: r_def)
  have N: "\<lfloor>fl (real (length xs) / r)\<rfloor> < 2 ^ 32"
    using assms(2) False by (simp add: fits_def r_def)
  have res: "resampleTo24kHz xs sr = Some out"
    using resample_defined [OF assms(1,2) False] by (simp add: out_def r_def)
  have idx: "0 \<le> \<lfloor>fl (real i * r)\<rfloor> \<and> \<lfloor>fl (real i * r)\<rfloor> < int (length xs)
            \<and> out ! i = xs ! nat \<lfloor>fl (real i * r)\<rfloor>
            \<and> \<bar>\<lfloor>fl (real i * r)\<rfloor> - \<lfloor>real i * sr / TARGET_SAMPLE_RATE\<rfloor>\<bar> \<le> 1"
    if "i < length out" for i
  proof -
    have i: "int i < \<lfloor>fl (real (length xs) / r)\<rfloor>" using that by (simp add: out_def)
    have "0 \<le> fl (real i * r)" using pos by (intro fl_nonneg) simp
    then have a: "0 \<le> \<lfloor>fl (real i * r)\<rfloor>" by simp
    have "fl (real i * r) < real (length xs)"
      using src_index_bounds(1) [OF pos i N] .
    then have b: "\<lfloor>fl (real i * r)\<rfloor> < int (length xs)"
      by (simp add: floor_less_iff)
    have "out ! i = index_or_zero xs \<lfloor>fl (real i * r)\<rfloor>"
      using that by (simp add: out_def)
    then have c: "out ! i = xs ! nat \<lfloor>fl (real i * r)\<rfloor>"
      using a b by (simp only: index_or_zero_def if_True simp_thms)
    have "\<bar>\<lfloor>fl (real i * fl (sr / TARGET_SAMPLE_RATE))\<rfloor>
            - \<lfloor>real i * (sr / TARGET_SAMPLE_RATE)\<rfloor>\<bar> \<le> 1"
      using src_index_close [where rho = "sr / TARGET_SAMPLE_RATE" and n = "length xs" and i = i]
        rho pos i N assms(3) by (simp only: r_def)
    then have d: "\<bar>\<lfloor>fl (real i * r)\<rfloor> - \<lfloor>real i * sr / TARGET_SAMPLE_RATE\<rfloor>\<bar> \<le> 1"
      by (simp add: r_def)
    show ?thesis using a b c d by simp
  qed
  have half: "length out = length xs div 2 \<and> (\<forall>i < length out. out ! i = xs ! (2 * i))"
    if "sr = 2 * TARGET_SAMPLE_RATE"
  proof -
    have r2: "r = 2" using that by (simp add: r_def TARGET_SAMPLE_RATE_def fl_two)
    have "length xs < 2 ^ 53" using assms(3) by (simp, linarith?)
    then have h: "fl (real (length xs) / 2) = real (length xs) / 2" by (rule fl_half_of_nat)
    have "length out = nat \<lfloor>fl (real (length xs) / 2)\<rfloor>" by (simp add: out_def r2)
    also have "\<dots> = nat \<lfloor>real (length xs) / 2\<rfloor>" by (simp only: h)
    also have "\<dots> = length xs div 2"
      using floor_divide_of_nat_eq [of "length xs" 2, where ?'a = real] by simp
    finally have len: "length out = length xs div 2" .
    have "out ! i = xs ! (2 * i)" if "i < length out" for i
    proof -
      have "2 * i < 2 ^ 53" using that len assms(3) by (simp, linarith?)
      then have "fl (real (2 * i)) = real (2 * i)" by (rule fl_of_nat)
      then have "fl (real i * r) = real (2 * i)" by (simp add: r2 mult.commute)
      then have "\<lfloor>fl (real i * r)\<rfloor> = int (2 * i)" by (simp only: floor_of_nat)
      then have "nat \<lfloor>fl (real i * r)\<rfloor> = 2 * i" by (simp only: nat_int)
      then show ?thesis using idx [OF that] by (simp only:)
    qed
    then show ?thesis using len by simp
  qed
  show ?thesis using res idx half False unfolding r_def by blast
qed

theorem resample_nearest_neighbour_witness:
  "(0::real) < 48000 \<and> fits 48000 [1, 2, 3, 4] \<and> length [1::sample, 2, 3, 4] < 2 ^ 32
     \<and> (\<exists>out. resampleTo24kHz [1, 2, 3, 4] 48000 = Some out \<and> length out = 2
            \<and> out ! 1 = [1, 2, 3, 4] ! 2)"
proof -
  have h1: "(0::real) < 48000" by simp
  have h2: "fits 48000 [1, 2, 3, 4]" by code_simp
  have h3: "length [1::sample, 2, 3, 4] < 2 ^ 32" by simp
  have t: "(48000::real) = 2 * TARGET_SAMPLE_RATE" by (simp add: TARGET_SAMPLE_RATE_def)
  obtain out where out: "resampleTo24kHz [1, 2, 3, 4] 48000 = Some out"
    "length out = length [1::sample, 2, 3, 4] div 2"
    "\<forall>i < length out. out ! i = [1::sample, 2, 3, 4] ! (2 * i)"
    using resample_nearest_neighbour [OF h1 h2 h3] t by blast
  have "length out = 2" using out(2) by simp
  moreover have "out ! 1 = [1::sample, 2, 3, 4] ! 2" using out(3) \<open>length out = 2\<close> by simp
  ultimately show ?thesis using h1 h2 h3 out(1) by blast
qed

text \<open>
  Claim C9 as stated fails in both of its parts. At 27840 Hz a block of 31 samples,
  sample \<open>j\<close> holding the number \<open>j\<close>, gives 26 samples of which the one at index 25
  is input sample 28, while \<open>floor (25 * 27840 / 24000)\<close> is 29: the ratio 1.16 is not a
  double, and 25 times the double nearest to it rounds below 29. And three samples at
  48 kHz give one sample, which is not half of three.
\<close>

theorem resample_rounding_counterexample:
  "map_option length (resampleTo24kHz (map real [0 ..< 31]) 27840) = Some 26
   \<and> map_option (hd \<circ> drop 25) (resampleTo24kHz (map real [0 ..< 31]) 27840) = Some 28
   \<and> map real [0 ..< 31] ! nat \<lfloor>25 * 27840 / TARGET_SAMPLE_RATE\<rfloor> = 29
   \<and> resampleTo24kHz [1, 2, 3] (2 * TARGET_SAMPLE_RATE) = Some [1]
   \<and> 2 * length [1 :: sample] \<noteq> length [1 :: sample, 2, 3]"
proof -
  define c :: real where "c = 5224175567749775 / 4503599627370496"
  have r: "fl (27840 / TARGET_SAMPLE_RATE) = c"
    unfolding c_def by code_simp
  have n: "\<lfloor>fl (real (length (map real [0 ..< 31])) / c)\<rfloor> = 26"
    unfolding c_def by code_simp
  have i: "\<lfloor>fl (real 25 * c)\<rfloor> = 28"
    unfolding c_def by code_simp
  have ne: "(27840::real) \<noteq> TARGET_SAMPLE_RATE" "c \<noteq> 0"
    by (simp_all add: TARGET_SAMPLE_RATE_def c_def)
  have res: "resampleTo24kHz (map real [0 ..< 31]) 27840
      = Some (map (\<lambda>i. index_or_zero (map real [0 ..< 31]) \<lfloor>fl (real i * c)\<rfloor>) [0 ..< 26])"
    unfolding resampleTo24kHz_def Let_def r n using ne by simp
  have d: "drop 25 [0 ..< 26] = [25]" by (simp add: drop_upt)
  have a: "map_option length (resampleTo24kHz (map real [0 ..< 31]) 27840) = Some 26"
    by (simp add: res)
  have b: "map_option (hd \<circ> drop 25) (resampleTo24kHz (map real [0 ..< 31]) 27840) = Some 28"
    unfolding res by (simp only: option.map comp_apply drop_map d list.map list.sel i)
       (simp add: index_or_zero_def)
  have c3: "map real [0 ..< 31] ! nat \<lfloor>25 * 27840 / TARGET_SAMPLE_RATE\<rfloor> = 29"
    by (simp add: TARGET_SAMPLE_RATE_def)
  have c4: "resampleTo24kHz [1, 2, 3] (2 * TARGET_SAMPLE_RATE) = Some [1]"
    by code_simp
  show ?thesis using a b c3 c4 by simp
qed

text \<open>
  Claim C8. After \<open>start\<close>, for every sequence of render callbacks (at a positive
  native rate, blocks of valid length), every chunk posted since the start holds
  exactly \<open>SAMPLES_PER_CHUNK\<close> samples and reports that count, the accumulator
  is left with fewer than \<open>SAMPLES_PER_CHUNK\<close> samples, and the posted chunks
  followed by the accumulator are the resampled input of all the callbacks, in order.
\<close>

theorem chunker_conservation:
  assumes "0 < sr" and "\<forall>inputs \<in> set calls. fits sr (channel0 inputs)"
  shows "\<exists>m' new. mic_run sr calls (mic_onmessage Start m) = Some m'
     \<and> mic_port m' = mic_port m @ new
     \<and> (\<forall>c \<in> set new. real (length (msg_data c)) = SAMPLES_PER_CHUNK
                          \<and> real (msg_samples c) = SAMPLES_PER_CHUNK)
     \<and> concat (map msg_data new) @ pcmBuffer m' = concat (map (resampled sr) calls)
     \<and> real (length (pcmBuffer m')) < SAMPLES_PER_CHUNK"
proof -
  have "isRecording (mic_onmessage Start m)" and "length (pcmBuffer (mic_onmessage Start m)) < 1920"
    by simp_all
  from mic_run_recording [OF this(1) assms this(2)]
  show ?thesis by (simp add: SAMPLES_PER_CHUNK_eq, blast)
qed

theorem chunker_conservation_witness:
  "(0::real) < 24000
   \<and> fits 24000 (channel0 [[replicate 1000 (1/2)]])
   \<and> fits 24000 (channel0 [[replicate 1000 (1/4)]])
   \<and> (\<exists>m' new. mic_run 24000 [[[replicate 1000 (1/2)]], [[replicate 1000 (1/4)]]]
                       (mic_onmessage Start mic_constructor) = Some m'
        \<and> mic_port m' = new
        \<and> concat (map msg_data new) @ pcmBuffer m' = replicate 1000 (1/2) @ replicate 1000 (1/4)
        \<and> length (pcmBuffer m') < 1920)"
proof -
  have h1: "(0::real) < 24000" by simp
  have h2: "\<forall>inputs \<in> set [[[replicate 1000 (1/2)]], [[replicate 1000 (1/4)]]].
              fits 24000 (channel0 inputs)"
    by (simp add: fits_def channel0_def TARGET_SAMPLE_RATE_def)
  have r: "resampled 24000 [[replicate 1000 (1/2)]] = replicate 1000 (1/2)"
          "resampled 24000 [[replicate 1000 (1/4)]] = replicate 1000 (1/4)"
    by (simp_all add: resampled_def channel0_def resampleTo24kHz_def TARGET_SAMPLE_RATE_def)
  show ?thesis
    using chunker_conservation [OF h1 h2, of mic_constructor] h1 h2
    by (simp add: r SAMPLES_PER_CHUNK_eq mic_constructor_def, blast)
qed


section \<open>Properties of the playout buffer\<close>

subsection \<open>The loop that copies queued samples\<close>

lemma subarray_inside:
  assumes "off + c \<le> length xs"
  shows "subarray xs (int off) (int off + int c) = take c (drop off xs)"
  using assms by (simp add: subarray_def Let_def min_def)

lemma array_set_inside:
  assumes "i + length src \<le> length target"
  shows "array_set target src (int i) =
           Some (take i target @ src @ drop (i + length src) target)"
  using assms by (simp add: array_set_def)

lemma queue_ok_offset_le:
  assumes "queue_ok s" and "frames s = first # rest"
  shows "offsetInFirstBuffer s \<le> length first"
  using assms by (auto simp: queue_ok_def)

lemma drain_body_spec:
  assumes ok: "queue_ok s" and fr: "frames s = first # rest" and i: "i < length output"
  defines "c \<equiv> min (length first - offsetInFirstBuffer s) (length output - i)"
  defines "out1 \<equiv> take i output @ take c (drop (offsetInFirstBuffer s) first) @ drop (i + c) output"
  shows "drain_body output (int i) anyAudio s =
           Some (out1, int (i + c), anyAudio \<or> list_ex audible out1,
                 if offsetInFirstBuffer s + c = length first
                 then s\<lparr>offsetInFirstBuffer := 0, frames := rest\<rparr>
                 else s\<lparr>offsetInFirstBuffer := offsetInFirstBuffer s + c\<rparr>)"
proof -
  have le: "offsetInFirstBuffer s \<le> length first"
    using queue_ok_offset_le [OF ok fr] .
  have tc: "min (int (length first) - int (offsetInFirstBuffer s)) (int (length output) - int i) = int c"
    using le i unfolding c_def by arith
  have cle: "offsetInFirstBuffer s + c \<le> length first" "i + c \<le> length output"
    using le i by (simp_all add: c_def)
  have sub: "subarray first (int (offsetInFirstBuffer s)) (int (offsetInFirstBuffer s) + int c)
               = take c (drop (offsetInFirstBuffer s) first)"
    using subarray_inside [OF cle(1)] .
  have lsub: "length (take c (drop (offsetInFirstBuffer s) first)) = c"
    using cle(1) by simp
  have st: "array_set output (take c (drop (offsetInFirstBuffer s) first)) (int i) = Some out1"
    using array_set_inside [of i "take c (drop (offsetInFirstBuffer s) first)" "output"] cle(2) lsub
    by (simp add: out1_def)
  have n: "nat (int (offsetInFirstBuffer s) + int c) = offsetInFirstBuffer s + c"
    by simp
  show ?thesis
    unfolding drain_body_def fr list.case Let_def tc sub st option.case n
    by (simp add: nat_add_distrib)
qed


lemma queued_Cons:
  assumes "queue_ok s" and "frames s = first # rest"
  shows "queued s = drop (offsetInFirstBuffer s) first @ concat rest"
  using queue_ok_offset_le [OF assms] assms(2) by (simp add: queued_def)

lemma drain_stop:
  assumes "\<not> (i < length output \<and> frames s \<noteq> [])"
  shows "drain output (int i) anyAudio s = Some (output, int i, anyAudio, s)"
  using assms by (subst drain.simps) auto

lemma drain_spec:
  assumes "frames s = fs" and "queue_ok s" and "i \<le> length output"
    and "\<forall>x \<in> set (drop i output). \<not> audible x"
    and "k = min (length output - i) (length (queued s))"
  shows "\<exists>s'. drain output (int i) anyAudio s =
            Some (take i output @ take k (queued s) @ drop (i + k) output, int (i + k),
                  anyAudio \<or> (i < length output \<and> fs \<noteq> [] \<and>
                     list_ex audible (take i output @ take k (queued s))), s')
          \<and> queued s' = drop k (queued s) \<and> queue_ok s'
          \<and> (i + k < length output \<longrightarrow> frames s' = [])
          \<and> s' = s\<lparr>frames := frames s', offsetInFirstBuffer := offsetInFirstBuffer s'\<rparr>
          \<and> set (frames s') \<subseteq> set (frames s)"
  using assms
proof (induction fs arbitrary: s i "output" anyAudio k)
  case Nil
  then have off0: "offsetInFirstBuffer s = 0" by (simp add: queue_ok_def)
  have q: "queued s = []" using Nil.prems(1) by (simp add: queued_def)
  then have k0: "k = 0" using Nil.prems(5) by simp
  have "drain output (int i) anyAudio s = Some (output, int i, anyAudio, s)"
    using drain_stop [of i "output" s anyAudio] Nil.prems(1) by simp
  then show ?case using q k0 Nil.prems(1,2) by (intro exI [of _ s]) simp
next
  case (Cons first rest)
  define off where "off = offsetInFirstBuffer s"
  define n where "n = length output"
  define B where "B = concat rest"
  have fr: "frames s = first # rest" using Cons.prems(1) .
  have ok: "queue_ok s" using Cons.prems(2) .
  have offle: "off \<le> length first"
    using queue_ok_offset_le [OF ok fr] by (simp add: off_def)
  have q: "queued s = drop off first @ B"
    using queued_Cons [OF ok fr] by (simp add: off_def B_def)
  show ?case
  proof (cases "i < n")
    case False
    then have "i = n" using Cons.prems(3) by (simp add: n_def)
    then have k0: "k = 0" using Cons.prems(5) by (simp add: n_def)
    have "drain output (int i) anyAudio s = Some (output, int i, anyAudio, s)"
      using drain_stop [of i "output" s anyAudio] False by (simp add: n_def)
    then show ?thesis using k0 False ok by (intro exI [of _ s]) (simp add: n_def)
  next
    case True
    define c where "c = min (length first - off) (n - i)"
    define out1 where "out1 = take i output @ take c (drop off first) @ drop (i + c) output"
    define any1 where "any1 = (anyAudio \<or> list_ex audible out1)"
    define s1 where "s1 = (if off + c = length first
                 then s\<lparr>offsetInFirstBuffer := 0, frames := rest\<rparr>
                 else s\<lparr>offsetInFirstBuffer := off + c\<rparr>)"
    have body: "drain_body output (int i) anyAudio s = Some (out1, int (i + c), any1, s1)"
      using drain_body_spec [OF ok fr, of i "output" anyAudio] True
      by (simp add: n_def c_def out1_def any1_def s1_def off_def)
    have unf: "drain output (int i) anyAudio s = drain out1 (int (i + c)) any1 s1"
      using True fr body by (subst drain.simps) (simp add: n_def)
    have cle: "c \<le> length first - off" "c \<le> n - i" by (simp_all add: c_def)
    have len1: "length out1 = n"
      using cle offle True by (simp add: out1_def n_def)
    have tail_silent: "\<not> list_ex audible (drop i output)"
      using Cons.prems(4) by (simp add: list_ex_iff)
    have ex1: "list_ex audible out1 = list_ex audible (take i output @ take c (drop off first))"
    proof -
      have "set (drop (i + c) output) \<subseteq> set (drop i output)"
        by (metis add.commute drop_drop set_drop_subset)
      then have "\<not> list_ex audible (drop (i + c) output)"
        using Cons.prems(4) by (auto simp: list_ex_iff)
      then show ?thesis by (simp add: out1_def list_ex_iff) blast
    qed
    show ?thesis
    proof (cases "off + c = length first")
      case shift: True
      then have s1: "s1 = s\<lparr>offsetInFirstBuffer := 0, frames := rest\<rparr>"
        by (simp add: s1_def)
      have c_eq: "c = length first - off" using shift by simp
      define A where "A = drop off first"
      have lenA: "length A = c" by (simp add: A_def c_eq)
      have takeA: "take c (drop off first) = A" by (simp add: A_def c_eq)
      have out1: "out1 = take i output @ A @ drop (i + c) output"
        by (simp add: out1_def takeA)
      have qA: "queued s = A @ B" using q by (simp add: A_def)
      have q1: "queued s1 = B" by (simp add: s1 queued_def B_def)
      define k1 where "k1 = min (length out1 - (i + c)) (length (queued s1))"
      have kk: "k = c + k1"
        using Cons.prems(5) cle(2) lenA
        by (simp add: k1_def len1 q1 qA n_def [symmetric])
      have tail1: "\<forall>x \<in> set (drop (i + c) out1). \<not> audible x"
      proof -
        have "drop (i + c) out1 = drop (i + c) output"
          using cle(2) True lenA by (simp add: out1 n_def)
        moreover have "set (drop (i + c) output) \<subseteq> set (drop i output)"
          by (metis add.commute drop_drop set_drop_subset)
        ultimately show ?thesis using Cons.prems(4) by auto
      qed
      have "\<exists>s'. drain out1 (int (i + c)) any1 s1 =
            Some (take (i + c) out1 @ take k1 (queued s1) @ drop (i + c + k1) out1,
                  int (i + c + k1),
                  any1 \<or> (i + c < length out1 \<and> rest \<noteq> [] \<and>
                     list_ex audible (take (i + c) out1 @ take k1 (queued s1))), s')
          \<and> queued s' = drop k1 (queued s1) \<and> queue_ok s'
          \<and> (i + c + k1 < length out1 \<longrightarrow> frames s' = [])
          \<and> s' = s1\<lparr>frames := frames s', offsetInFirstBuffer := offsetInFirstBuffer s'\<rparr>
          \<and> set (frames s') \<subseteq> set (frames s1)"
      proof (rule Cons.IH)
        show "frames s1 = rest" by (simp add: s1)
        show "queue_ok s1" by (simp add: s1 queue_ok_def)
        show "i + c \<le> length out1" using cle(2) True by (simp add: len1)
        show "\<forall>x \<in> set (drop (i + c) out1). \<not> audible x" using tail1 .
        show "k1 = min (length out1 - (i + c)) (length (queued s1))" by (simp add: k1_def)
      qed
      then obtain s' where
        d: "drain out1 (int (i + c)) any1 s1 =
            Some (take (i + c) out1 @ take k1 (queued s1) @ drop (i + c + k1) out1,
                  int (i + c + k1),
                  any1 \<or> (i + c < length out1 \<and> rest \<noteq> [] \<and>
                     list_ex audible (take (i + c) out1 @ take k1 (queued s1))), s')"
        and qs': "queued s' = drop k1 (queued s1)" and ok': "queue_ok s'"
        and emp: "i + c + k1 < length out1 \<longrightarrow> frames s' = []"
        and rec: "s' = s1\<lparr>frames := frames s', offsetInFirstBuffer := offsetInFirstBuffer s'\<rparr>"
        and sub: "set (frames s') \<subseteq> set (frames s1)"
        by blast
      have t1: "take (i + c) out1 = take i output @ A"
        using True lenA by (simp add: out1 n_def)
      have d1: "drop (i + c + k1) out1 = drop (i + k) output"
        using True lenA by (simp add: out1 n_def kk ac_simps)
      have tk: "take k (queued s) = A @ take k1 B"
        using lenA by (simp add: qA kk)
      have outeq: "take (i + c) out1 @ take k1 (queued s1) @ drop (i + c + k1) out1
                   = take i output @ take k (queued s) @ drop (i + k) output"
        by (simp add: t1 d1 tk q1)
      have k1zero: "k1 = 0 \<or> B = [] \<Longrightarrow> take k1 B = []" by auto
      have anyeq: "(any1 \<or> (i + c < length out1 \<and> rest \<noteq> [] \<and>
                     list_ex audible (take (i + c) out1 @ take k1 (queued s1))))
                 = (anyAudio \<or> (i < length output \<and> first # rest \<noteq> [] \<and>
                     list_ex audible (take i output @ take k (queued s))))"
      proof -
        have e1: "list_ex audible out1 =
                    (list_ex audible (take i output) \<or> list_ex audible A)"
          using ex1 by (simp add: takeA)
        have e2: "list_ex audible (take (i + c) out1 @ take k1 (queued s1)) =
                    (list_ex audible (take i output) \<or> list_ex audible A
                       \<or> list_ex audible (take k1 B))"
          by (simp add: t1 q1)
        have e3: "list_ex audible (take i output @ take k (queued s)) =
                    (list_ex audible (take i output) \<or> list_ex audible A
                       \<or> list_ex audible (take k1 B))"
          by (simp add: tk)
        show ?thesis
        proof (cases "i + c < length out1 \<and> rest \<noteq> []")
          case True
          then show ?thesis
            unfolding any1_def e1 e2 e3 using \<open>i < n\<close> by (auto simp: n_def)
        next
          case False
          then have "k1 = 0 \<or> B = []"
            by (auto simp: k1_def B_def)
          then have "take k1 B = []" by auto
          then show ?thesis
            unfolding any1_def e1 e3 using False \<open>i < n\<close> by (auto simp: n_def)
        qed
      qed
      have "drain output (int i) anyAudio s =
            Some (take i output @ take k (queued s) @ drop (i + k) output, int (i + k),
                  anyAudio \<or> (i < length output \<and> first # rest \<noteq> [] \<and>
                     list_ex audible (take i output @ take k (queued s))), s')"
      proof -
        have ik: "i + c + k1 = i + k" by (simp add: kk)
        have "drain out1 (int (i + c)) any1 s1 =
            Some (take i output @ take k (queued s) @ drop (i + k) output, int (i + c + k1),
                  anyAudio \<or> (i < length output \<and> first # rest \<noteq> [] \<and>
                     list_ex audible (take i output @ take k (queued s))), s')"
          using d by (simp only: outeq anyeq)
        then show ?thesis using unf by (simp only: ik)
      qed
      moreover have "queued s' = drop k (queued s)"
        using qs' lenA by (simp add: q1 qA kk)
      moreover have "i + k < length output \<longrightarrow> frames s' = []"
        using emp by (simp add: kk len1 n_def add.assoc)
      moreover have "s' = s\<lparr>frames := frames s', offsetInFirstBuffer := offsetInFirstBuffer s'\<rparr>"
        using rec by (simp add: s1)
      moreover have "set (frames s') \<subseteq> set (frames s)"
        using sub by (auto simp: s1 fr)
      ultimately show ?thesis using ok' by blast
    next
      case noshift: False
      then have s1: "s1 = s\<lparr>offsetInFirstBuffer := off + c\<rparr>"
        by (simp add: s1_def)
      have lt: "off + c < length first" using noshift cle(1) offle by linarith
      have c_eq: "c = n - i" using lt by (simp add: c_def min_def split: if_splits)
      have stop: "drain out1 (int (i + c)) any1 s1 = Some (out1, int (i + c), any1, s1)"
        using drain_stop [of "i + c" out1 s1 any1] True by (simp add: len1 c_eq)
      have kc: "k = c"
        using Cons.prems(5) lt by (simp add: q c_eq n_def)
      have tk: "take k (queued s) = take c (drop off first)"
        using lt by (simp add: q kc)
      have dr: "drop (i + c) output = []" using True by (simp add: c_eq n_def)
      have outeq: "out1 = take i output @ take k (queued s) @ drop (i + k) output"
        by (simp add: out1_def kc tk [unfolded kc])
      have anyeq: "any1 = (anyAudio \<or> (i < length output \<and> first # rest \<noteq> [] \<and>
                     list_ex audible (take i output @ take k (queued s))))"
        using True by (simp add: any1_def ex1 kc tk [unfolded kc] n_def)
      have "drain output (int i) anyAudio s =
            Some (take i output @ take k (queued s) @ drop (i + k) output, int (i + k),
                  anyAudio \<or> (i < length output \<and> first # rest \<noteq> [] \<and>
                     list_ex audible (take i output @ take k (queued s))), s1)"
        using unf stop outeq anyeq kc by simp
      moreover have "queued s1 = drop k (queued s)"
        using fr offle by (simp add: s1 queued_def kc off_def add.commute)
      moreover have "queue_ok s1" using lt fr by (simp add: s1 queue_ok_def)
      moreover have "\<not> i + k < length output" using True by (simp add: kc c_eq n_def)
      moreover have "s1 = s\<lparr>frames := frames s1, offsetInFirstBuffer := offsetInFirstBuffer s1\<rparr>"
        by (simp add: s1)
      moreover have "set (frames s1) \<subseteq> set (frames s)" by (simp add: s1)
      ultimately show ?thesis by blast
    qed
  qed
qed



subsection \<open>The loop that drops the oldest samples\<close>

lemma currentSamples_queued:
  assumes "queue_ok s"
  shows "currentSamples s = int (length (queued s))"
proof (cases "frames s")
  case Nil
  then show ?thesis using assms by (simp add: queue_ok_def currentSamples_def queued_def)
next
  case (Cons first rest)
  have "offsetInFirstBuffer s \<le> length first"
    using queue_ok_offset_le [OF assms Cons] .
  then show ?thesis using Cons
    by (simp add: currentSamples_def queued_def length_concat)
qed

lemma drop_oldest_body_spec:
  assumes ok: "queue_ok s" and fr: "frames s = first # rest"
    and over: "initialBufferSamples s + partialBufferSamples s < currentSamples s"
  defines "r \<equiv> min (length first - offsetInFirstBuffer s)
                   (nat (currentSamples s - (initialBufferSamples s + partialBufferSamples s)))"
  shows "drop_oldest_body sr s =
           Some (if offsetInFirstBuffer s + r = length first
                 then s\<lparr>timeInStream := timeInStream s + real r / sr,
                        frames := rest, offsetInFirstBuffer := 0\<rparr>
                 else s\<lparr>offsetInFirstBuffer := offsetInFirstBuffer s + r,
                        timeInStream := timeInStream s + real r / sr\<rparr>)"
proof -
  have le: "offsetInFirstBuffer s \<le> length first"
    using queue_ok_offset_le [OF ok fr] .
  have tr: "min (int (length first) - int (offsetInFirstBuffer s))
                (currentSamples s - (initialBufferSamples s + partialBufferSamples s)) = int r"
    using le over unfolding r_def by arith
  have n: "nat (int (offsetInFirstBuffer s) + int r) = offsetInFirstBuffer s + r"
    by simp
  show ?thesis
    unfolding drop_oldest_body_def fr list.case Let_def tr n
    by simp
qed

lemma drop_oldest_stop:
  assumes "\<not> initialBufferSamples s + partialBufferSamples s < currentSamples s"
  shows "drop_oldest sr s = Some s"
  using assms by (subst drop_oldest.simps) simp

lemma drop_oldest_spec:
  assumes "frames s = fs" and "queue_ok s"
    and "0 \<le> initialBufferSamples s + partialBufferSamples s"
    and "d = nat (currentSamples s - (initialBufferSamples s + partialBufferSamples s))"
  shows "\<exists>s'. drop_oldest sr s = Some s'
          \<and> queued s' = drop d (queued s) \<and> queue_ok s'
          \<and> s' = s\<lparr>frames := frames s', offsetInFirstBuffer := offsetInFirstBuffer s',
                    timeInStream := timeInStream s'\<rparr>
          \<and> set (frames s') \<subseteq> set (frames s)"
  using assms
proof (induction fs arbitrary: s d)
  case Nil
  then have "currentSamples s = 0"
    by (simp add: currentSamples_def queue_ok_def)
  then have "drop_oldest sr s = Some s" and "d = 0"
    using Nil.prems(3,4) drop_oldest_stop [of s sr] by simp_all
  then show ?case using Nil.prems(2) by (intro exI [of _ s]) simp
next
  case (Cons first rest)
  define target where "target = initialBufferSamples s + partialBufferSamples s"
  define off where "off = offsetInFirstBuffer s"
  have fr: "frames s = first # rest" using Cons.prems(1) .
  have ok: "queue_ok s" using Cons.prems(2) .
  have offle: "off \<le> length first"
    using queue_ok_offset_le [OF ok fr] by (simp add: off_def)
  have q: "queued s = drop off first @ concat rest"
    using queued_Cons [OF ok fr] by (simp add: off_def)
  have cur: "currentSamples s = int (length (queued s))"
    using currentSamples_queued [OF ok] .
  show ?case
  proof (cases "target < currentSamples s")
    case False
    then have "drop_oldest sr s = Some s" and "d = 0"
      using Cons.prems(4) drop_oldest_stop [of s sr] by (simp_all add: target_def)
    then show ?thesis using ok by (intro exI [of _ s]) simp
  next
    case True
    define r where "r = min (length first - off) (nat (currentSamples s - target))"
    define s1 where "s1 = (if off + r = length first
                 then s\<lparr>timeInStream := timeInStream s + real r / sr,
                        frames := rest, offsetInFirstBuffer := 0\<rparr>
                 else s\<lparr>offsetInFirstBuffer := off + r,
                        timeInStream := timeInStream s + real r / sr\<rparr>)"
    have body: "drop_oldest_body sr s = Some s1"
      using drop_oldest_body_spec [OF ok fr, of sr] True
      by (simp add: target_def r_def s1_def off_def)
    have unf: "drop_oldest sr s = drop_oldest sr s1"
      using True body by (subst drop_oldest.simps) (simp add: target_def)
    have dpos: "int d = currentSamples s - target" "0 < d"
      using True Cons.prems(4) by (simp_all add: target_def)
    have rle: "r \<le> length first - off" "r \<le> d"
      using dpos by (simp_all add: r_def)
    show ?thesis
    proof (cases "off + r = length first")
      case shift: True
      then have s1: "s1 = s\<lparr>timeInStream := timeInStream s + real r / sr,
                        frames := rest, offsetInFirstBuffer := 0\<rparr>"
        by (simp add: s1_def)
      have r_eq: "r = length (drop off first)" using shift by simp
      have q1: "queued s1 = concat rest" by (simp add: s1 queued_def)
      have ok1: "queue_ok s1" by (simp add: s1 queue_ok_def)
      have cur1: "currentSamples s1 = currentSamples s - int r"
        using currentSamples_queued [OF ok1] cur by (simp add: q1 q r_eq)
      have "\<exists>s'. drop_oldest sr s1 = Some s'
          \<and> queued s' = drop (d - r) (queued s1) \<and> queue_ok s'
          \<and> s' = s1\<lparr>frames := frames s', offsetInFirstBuffer := offsetInFirstBuffer s',
                    timeInStream := timeInStream s'\<rparr>
          \<and> set (frames s') \<subseteq> set (frames s1)"
      proof (rule Cons.IH)
        show "frames s1 = rest" by (simp add: s1)
        show "queue_ok s1" using ok1 .
        show "0 \<le> initialBufferSamples s1 + partialBufferSamples s1"
          using Cons.prems(3) by (simp add: s1)
        show "d - r = nat (currentSamples s1 - (initialBufferSamples s1 + partialBufferSamples s1))"
          using dpos rle by (simp add: cur1) (simp add: s1 target_def)
      qed
      then obtain s' where d: "drop_oldest sr s1 = Some s'"
        and qs': "queued s' = drop (d - r) (queued s1)" and ok': "queue_ok s'"
        and rec: "s' = s1\<lparr>frames := frames s', offsetInFirstBuffer := offsetInFirstBuffer s',
                    timeInStream := timeInStream s'\<rparr>"
        and sub: "set (frames s') \<subseteq> set (frames s1)"
        by blast
      have "drop_oldest sr s = Some s'" using unf d by simp
      moreover have "queued s' = drop d (queued s)"
        using qs' rle by (simp add: q1 q r_eq)
      moreover have "s' = s\<lparr>frames := frames s', offsetInFirstBuffer := offsetInFirstBuffer s',
                    timeInStream := timeInStream s'\<rparr>"
        using rec by (simp add: s1)
      moreover have "set (frames s') \<subseteq> set (frames s)"
        using sub by (auto simp: s1 fr)
      ultimately show ?thesis using ok' by blast
    next
      case noshift: False
      then have s1: "s1 = s\<lparr>offsetInFirstBuffer := off + r,
                        timeInStream := timeInStream s + real r / sr\<rparr>"
        by (simp add: s1_def)
      have lt: "off + r < length first" using noshift rle(1) offle by linarith
      have r_eq: "r = d" using lt dpos by (simp add: r_def min_def split: if_splits)
      have ok1: "queue_ok s1" using lt fr by (simp add: s1 queue_ok_def)
      have q1: "queued s1 = drop d (queued s)"
        using fr offle by (simp add: s1 queued_def r_eq off_def add.commute)
      have tpos: "0 \<le> target" using Cons.prems(3) by (simp add: target_def)
      have "currentSamples s1 = int (length (queued s) - d)"
        using currentSamples_queued [OF ok1] by (simp add: q1)
      then have "currentSamples s1 = target"
        using cur dpos tpos by linarith
      then have "drop_oldest sr s1 = Some s1"
        using drop_oldest_stop [of s1 sr] by (simp add: s1 target_def)
      then have "drop_oldest sr s = Some s1" using unf by simp
      moreover have "s1 = s\<lparr>frames := frames s1, offsetInFirstBuffer := offsetInFirstBuffer s1,
                    timeInStream := timeInStream s1\<rparr>"
        by (simp add: s1)
      moreover have "set (frames s1) \<subseteq> set (frames s)" by (simp add: s1)
      ultimately show ?thesis using ok1 q1 by blast
    qed
  qed
qed

subsection \<open>Pushing a frame\<close>

lemma asSamples_nonneg:
  assumes "0 \<le> sr" and "0 \<le> m"
  shows "0 \<le> asSamples sr m"
proof -
  have "0 \<le> m * sr / 1000" using assms by simp
  then have "round (0::real) \<le> round (m * sr / 1000)" by (rule round_mono)
  then show ?thesis by (simp add: asSamples_def)
qed

lemma asSamples_mono:
  assumes "0 \<le> sr" and "a \<le> b"
  shows "asSamples sr a \<le> asSamples sr b"
proof -
  have "a * sr / 1000 \<le> b * sr / 1000"
    using assms by (simp add: mult_right_mono divide_right_mono)
  then show ?thesis unfolding asSamples_def by (rule round_mono)
qed

text \<open>At an integer sample rate the doubles of the source give the same count: the
  product is an integer and exact, and the quotient by 1000, rounded to a double, stays
  on the same side of every half-integer.\<close>

lemma asSamples_double:
  fixes m r :: nat
  assumes "m * r < 2 ^ 43"
  shows "round (fl (fl (real m * real r) / 1000)) = asSamples (real r) (real m)"
proof -
  define N where "N = m * r"
  define x :: real where "x = real N / 1000"
  define k where "k = (N + 500) div 1000"
  define d where "d = (N + 500) mod 1000"
  have N43: "N < 2 ^ 43" using assms by (simp add: N_def)
  have "N < 2 ^ 53"
    using N43 power_strict_increasing [of 43 53 "2::nat"] by simp
  then have "fl (real N) = real N" by (rule fl_of_nat)
  then have prod: "fl (real m * real r) = real N" by (simp add: N_def)
  have x0: "0 \<le> x" by (simp add: x_def)
  have "real N < real (2 ^ 43)" using N43 by (simp only: of_nat_less_iff)
  then have x43: "x < 2 ^ 43" by (simp add: x_def)
  have "N + 500 = k * 1000 + d" by (simp add: k_def d_def)
  then have "real (N + 500) = real (k * 1000 + d)" by (simp only:)
  then have xk: "x + 1 / 2 = real k + real d / 1000" by (simp add: x_def)
  have d: "d < 1000" by (simp add: d_def)
  have rx: "round x = int k"
  proof -
    have "real_of_int (int k) \<le> x + 1 / 2" "x + 1 / 2 < real_of_int (int k) + 1"
      using xk d by simp_all
    then show ?thesis unfolding round_def by (simp add: floor_unique)
  qed
  have "round (fl x) = int k"
  proof (cases "d = 0")
    case True
    then have k1: "1 \<le> k" using \<open>N + 500 = k * 1000 + d\<close> by (cases k) simp_all
    have x2: "x = of_int (2 * int k - 1) * 2 powi (- 1)"
      using xk True by (simp add: power_int_minus field_simps)
    have "2 * real k - 1 < 2 ^ 53" using xk True x43 by (simp, linarith?)
    then have "real_of_int (2 * int k - 1) < real_of_int (2 ^ 53)" by simp
    then have "2 * int k - 1 < 2 ^ 53" by (simp only: of_int_less_iff)
    then have "fl x = x"
      using fl_exact [of "2 * int k - 1" "- 1"] k1 unfolding x2 [symmetric] by simp
    then show ?thesis using rx by simp
  next
    case False
    then have "1 \<le> d" by simp
    then have lo: "real k + 1 / 1000 \<le> x + 1 / 2"
      using xk by (simp add: field_simps)
    have "d \<le> 999" using d by simp
    then have "real d \<le> 999" by (metis of_nat_le_iff of_nat_numeral)
    then have hi: "x + 1 / 2 \<le> real k + 999 / 1000"
      using xk by (simp add: field_simps)
    have e: "\<bar>fl x - x\<bar> \<le> x / 2 ^ 53 + 1 / 2 ^ 100"
      using fl_error_coarse [OF x0] .
    have "\<bar>fl x - x\<bar> < 1 / 1000" using e x43 x0 by (simp, linarith?)
    then have "real_of_int (int k) \<le> fl x + 1 / 2" "fl x + 1 / 2 < real_of_int (int k) + 1"
      using lo hi by (simp_all, linarith+)
    then show ?thesis unfolding round_def by (simp add: floor_unique)
  qed
  then have "round (fl (real N / 1000)) = round (real N / 1000)"
    using rx by (simp add: x_def)
  then show ?thesis by (simp add: asSamples_def prod N_def)
qed

lemma well_formed_initState:
  assumes "0 \<le> sr" and "well_formed sr s"
  shows "well_formed sr (initState sr s)"
  using assms asSamples_nonneg [of sr 10] asSamples_nonneg [of sr DEFAULT_MAX_BUFFER_MS]
  by (simp add: well_formed_def initState_def resetStart_def Let_def queue_ok_def
        DEFAULT_MAX_BUFFER_MS_def)

lemma well_formed_constructor:
  assumes "0 \<le> sr"
  shows "well_formed sr (constructor sr)"
  using assms asSamples_nonneg [of sr 10] asSamples_nonneg [of sr DEFAULT_MAX_BUFFER_MS]
    asSamples_nonneg [of sr 80] asSamples_nonneg [of sr 500] asSamples_nonneg [of sr 6000]
    asSamples_mono [of sr 10 6000]
  by (simp add: well_formed_def constructor_def initState_def resetStart_def Let_def
        queue_ok_def DEFAULT_MAX_BUFFER_MS_def)

lemma queue_ok_push:
  assumes "queue_ok s"
  shows "queue_ok (s\<lparr>frames := frames s @ [f]\<rparr>)"
  using assms by (auto simp: queue_ok_def)

lemma queued_push:
  assumes "queue_ok s"
  shows "queued (s\<lparr>frames := frames s @ [f]\<rparr>) = queued s @ f"
proof (cases "frames s")
  case Nil
  then show ?thesis using assms by (simp add: queue_ok_def queued_def)
next
  case (Cons first rest)
  have "offsetInFirstBuffer s \<le> length first"
    using queue_ok_offset_le [OF assms Cons] .
  then show ?thesis using Cons by (simp add: queued_def)
qed

lemma processFrame_spec:
  assumes wf: "well_formed sr s"
  defines "cur \<equiv> currentSamples s"
  defines "starts \<equiv> initialBufferSamples s \<le> cur \<and> \<not> started s"
  defines "over \<equiv> totalMaxBufferSamples s \<le> cur"
  shows "\<exists>s'. processFrame sr f s = Some s' \<and> well_formed sr s'
     \<and> queued s' = (if over
                     then drop (nat (cur - (initialBufferSamples s + partialBufferSamples s)))
                               (queued s)
                     else queued s)
     \<and> set (frames s') \<subseteq> set (frames s)
     \<and> (\<not> over \<longrightarrow> frames s' = frames s \<and> offsetInFirstBuffer s' = offsetInFirstBuffer s
                     \<and> timeInStream s' = timeInStream s)
     \<and> s' = s\<lparr>frames := frames s', offsetInFirstBuffer := offsetInFirstBuffer s',
               timeInStream := timeInStream s',
               started := (started s \<or> initialBufferSamples s \<le> cur),
               remainingPartialBufferSamples :=
                 (if starts then partialBufferSamples s else remainingPartialBufferSamples s),
               firstOut := (starts \<or> firstOut s),
               pidx := (if pidx s < 20 then pidx s + 1 else pidx s),
               maxBufferSamples :=
                 (if over then min (maxMaxBufferWithIncrements s)
                                   (maxBufferSamples s + maxBufferSamplesIncrement s)
                  else maxBufferSamples s),
               port := port s @
                 [\<lparr>t_totalAudioPlayed = totalAudioPlayed s,
                   t_actualAudioPlayed = actualAudioPlayed s,
                   t_delay = real_of_int (currentSamples s') / sr,
                   t_minDelay = minDelay s, t_maxDelay = maxDelay s\<rparr>]\<rparr>"
proof -
  define s1 where "s1 = (if starts then start s else s)"
  define s2 where "s2 = (if pidx s1 < 20 then s1\<lparr>pidx := pidx s1 + 1\<rparr> else s1)"
  have s2: "s2 = s\<lparr>started := (started s \<or> initialBufferSamples s \<le> cur),
               remainingPartialBufferSamples :=
                 (if starts then partialBufferSamples s else remainingPartialBufferSamples s),
               firstOut := (starts \<or> firstOut s),
               pidx := (if pidx s < 20 then pidx s + 1 else pidx s)\<rparr>"
    by (auto simp: s2_def s1_def start_def starts_def)
  have cur2: "currentSamples s2 = cur" "totalMaxBufferSamples s2 = totalMaxBufferSamples s"
    by (simp_all add: s2 currentSamples_def totalMaxBufferSamples_def cur_def)
  have ok2: "queue_ok s2" using wf by (simp add: s2 well_formed_def queue_ok_def)
  have q2: "queued s2 = queued s" by (simp add: s2 queued_def)
  define post :: "processor \<Rightarrow> processor" where "post = (\<lambda>s5. s5\<lparr>port := port s5 @
                      [\<lparr>t_totalAudioPlayed = totalAudioPlayed s5,
                        t_actualAudioPlayed = actualAudioPlayed s5,
                        t_delay = real_of_int (currentSamples s5) / sr,
                        t_minDelay = minDelay s5,
                        t_maxDelay = maxDelay s5\<rparr>]\<rparr>)"
  define grow :: "processor \<Rightarrow> processor" where "grow = (\<lambda>s3.
       let s4 = s3\<lparr>maxBufferSamples := maxBufferSamples s3 + maxBufferSamplesIncrement s3\<rparr>
       in s4\<lparr>maxBufferSamples := min (maxMaxBufferWithIncrements s4) (maxBufferSamples s4)\<rparr>)"
  have pf0: "processFrame sr f s =
      (case (if currentSamples s2 \<ge> totalMaxBufferSamples s2 then
               (case drop_oldest sr s2 of None \<Rightarrow> None | Some s3 \<Rightarrow> Some (grow s3))
             else Some s2) of
         None \<Rightarrow> None
       | Some s5 \<Rightarrow> Some (post s5))"
    unfolding processFrame_def Let_def s2_def s1_def post_def starts_def cur_def grow_def
    by (rule refl)
  show ?thesis
  proof (cases over)
    case False
    have pf: "processFrame sr f s = Some (post s2)"
      using False unfolding pf0 cur2 over_def by simp
    have "well_formed sr (post s2)"
      using wf by (simp add: post_def s2 well_formed_def queue_ok_def)
    moreover have "queued (post s2) = queued s" by (simp add: post_def s2 queued_def)
    moreover have "currentSamples (post s2) = currentSamples s2"
      by (simp add: post_def currentSamples_def)
    ultimately show ?thesis
      using pf False by (intro exI [of _ "post s2"]) (simp add: post_def s2)
  next
    case True
    have tpos: "0 \<le> initialBufferSamples s2 + partialBufferSamples s2"
      using wf by (simp add: s2 well_formed_def)
    obtain s3 where d: "drop_oldest sr s2 = Some s3"
      and q3: "queued s3 = drop (nat (currentSamples s2 -
                  (initialBufferSamples s2 + partialBufferSamples s2))) (queued s2)"
      and ok3: "queue_ok s3"
      and rec3: "s3 = s2\<lparr>frames := frames s3, offsetInFirstBuffer := offsetInFirstBuffer s3,
                    timeInStream := timeInStream s3\<rparr>"
      and sub3: "set (frames s3) \<subseteq> set (frames s2)"
      using drop_oldest_spec [OF refl ok2 tpos refl, of sr] by blast
    have pf: "processFrame sr f s = Some (post (grow s3))"
      using True unfolding pf0 cur2 over_def d by simp
    have f3: "maxMaxBufferWithIncrements s3 = maxMaxBufferWithIncrements s"
        "maxBufferSamples s3 = maxBufferSamples s"
        "maxBufferSamplesIncrement s3 = maxBufferSamplesIncrement s"
        "initialBufferSamples s3 = initialBufferSamples s"
        "partialBufferSamples s3 = partialBufferSamples s"
        "maxPartialWithIncrements s3 = maxPartialWithIncrements s"
        "partialBufferIncrement s3 = partialBufferIncrement s"
      by (subst rec3, simp add: s2)+
    have g: "grow s3 = s3\<lparr>maxBufferSamples := min (maxMaxBufferWithIncrements s)
                                   (maxBufferSamples s + maxBufferSamplesIncrement s)\<rparr>"
      by (simp add: grow_def Let_def f3)
    have "well_formed sr (post (grow s3))"
      using wf ok3 by (simp add: post_def g well_formed_def queue_ok_def f3)
    moreover have "queued (post (grow s3)) =
        drop (nat (cur - (initialBufferSamples s + partialBufferSamples s))) (queued s)"
    proof -
      have i2: "initialBufferSamples s2 = initialBufferSamples s"
        "partialBufferSamples s2 = partialBufferSamples s"
        by (simp_all add: s2)
      have "queued (post (grow s3)) = queued s3" by (simp add: post_def g queued_def)
      then show ?thesis using q3 by (simp only: cur2 i2 q2)
    qed
    moreover have "set (frames (post (grow s3))) \<subseteq> set (frames s)"
      using sub3 by (simp add: post_def g s2)
    moreover have "post (grow s3) = s\<lparr>frames := frames (post (grow s3)),
               offsetInFirstBuffer := offsetInFirstBuffer (post (grow s3)),
               timeInStream := timeInStream (post (grow s3)),
               started := (started s \<or> initialBufferSamples s \<le> cur),
               remainingPartialBufferSamples :=
                 (if starts then partialBufferSamples s else remainingPartialBufferSamples s),
               firstOut := (starts \<or> firstOut s),
               pidx := (if pidx s < 20 then pidx s + 1 else pidx s),
               maxBufferSamples := min (maxMaxBufferWithIncrements s)
                                   (maxBufferSamples s + maxBufferSamplesIncrement s),
               port := port s @
                 [\<lparr>t_totalAudioPlayed = totalAudioPlayed s,
                   t_actualAudioPlayed = actualAudioPlayed s,
                   t_delay = real_of_int (currentSamples (post (grow s3))) / sr,
                   t_minDelay = minDelay s, t_maxDelay = maxDelay s\<rparr>]\<rparr>"
    proof -
      have o3: "started s3 = started s2"
        "remainingPartialBufferSamples s3 = remainingPartialBufferSamples s2"
        "firstOut s3 = firstOut s2" "pidx s3 = pidx s2" "port s3 = port s2"
        "totalAudioPlayed s3 = totalAudioPlayed s2" "actualAudioPlayed s3 = actualAudioPlayed s2"
        "maxDelay s3 = maxDelay s2" "minDelay s3 = minDelay s2"
        by (subst rec3, simp)+
      show ?thesis
        by (rule processor.equality)
           (simp_all add: post_def g f3 o3 s2 currentSamples_def)
    qed
    ultimately show ?thesis
      using pf True by (intro exI [of _ "post (grow s3)"]) simp
  qed
qed

subsection \<open>The render callback\<close>

lemma ramp_fold:
  fixes g :: "nat \<Rightarrow> real" and xs :: "sample list"
  defines "f \<equiv> (\<lambda>i ys. ys[i := ys ! i * g i])"
  shows "length (fold f [0 ..< m] xs) = length xs \<and>
   (\<forall>i < length xs. fold f [0 ..< m] xs ! i = (if i < m then xs ! i * g i else xs ! i))"
proof (induction m)
  case 0
  show ?case by simp
next
  case (Suc m)
  define X where "X = fold f [0 ..< m] xs"
  have len: "length X = length xs"
    and nth: "\<forall>i < length xs. X ! i = (if i < m then xs ! i * g i else xs ! i)"
    using Suc by (simp_all add: X_def)
  have step: "fold f [0 ..< Suc m] xs = X[m := X ! m * g m]"
    by (simp add: X_def f_def)
  have "X[m := X ! m * g m] ! i = (if i < Suc m then xs ! i * g i else xs ! i)"
    if i: "i < length xs" for i
  proof (cases "i = m")
    case True
    then show ?thesis using i len nth by simp
  next
    case False
    then have "X[m := X ! m * g m] ! i = X ! i" by simp
    moreover have "(i < Suc m) = (i < m)" using False by linarith
    ultimately show ?thesis using i nth by simp
  qed
  then show ?case unfolding step by (simp add: len)
qed

lemma ramp_length: "length (ramp g k xs) = length xs"
  using ramp_fold [where m = "nat k" and xs = xs and g = g] by (simp add: ramp_def)

lemma ramp_nth:
  assumes "i < length xs"
  shows "ramp g k xs ! i = (if int i < k then xs ! i * g i else xs ! i)"
proof -
  have "(i < nat k) = (int i < k)" by linarith
  then show ?thesis using ramp_fold [where m = "nat k" and xs = xs and g = g] assms by (simp add: ramp_def)
qed

lemma process_silent:
  assumes "\<not> canPlay s"
  shows "process sr out s =
           Some (s\<lparr>totalAudioPlayed :=
                      (if actualAudioPlayed s > 0
                       then totalAudioPlayed s + real (length out) / sr
                       else totalAudioPlayed s),
                    remainingPartialBufferSamples :=
                      remainingPartialBufferSamples s - int (length out)\<rparr>,
                 out)"
  using assms by (simp add: process_def Let_def)

lemma not_audible_zero: "\<not> audible 0"
  by (simp add: audible_def)

lemma process_play:
  fixes n :: nat and sr :: real
  assumes ok: "queue_ok s" and cp: "canPlay s"
  defines "k \<equiv> min n (length (queued s))"
  defines "underrun \<equiv> k < n \<and> \<not> list_ex audible (take k (queued s))"
  defines "raw \<equiv> take k (queued s) @ replicate (n - k) 0"
  defines "pre \<equiv> (if firstOut s then fade_in (int k) raw else raw)"
  defines "delay \<equiv> real_of_int (currentSamples s) / sr"
  shows "\<exists>s'. renderTick sr n s =
             Some (s', if underrun then fade_out (int k) pre else pre)
      \<and> queue_ok s' \<and> queued s' = drop k (queued s)
      \<and> (k < n \<longrightarrow> frames s' = []) \<and> set (frames s') \<subseteq> set (frames s)
      \<and> s' = s\<lparr>maxDelay := max (maxDelay s) delay, minDelay := min (minDelay s) delay,
                frames := frames s', offsetInFirstBuffer := offsetInFirstBuffer s',
                firstOut := False,
                partialBufferSamples :=
                  (if underrun
                   then min (partialBufferSamples s + partialBufferIncrement s)
                            (maxPartialWithIncrements s)
                   else partialBufferSamples s),
                started := \<not> underrun,
                totalAudioPlayed := totalAudioPlayed s + real n / sr,
                actualAudioPlayed := actualAudioPlayed s + real k / sr,
                timeInStream := timeInStream s + real k / sr\<rparr>"
proof -
  define s1 where "s1 = s\<lparr>maxDelay := max (maxDelay s) delay, minDelay := min (minDelay s) delay\<rparr>"
  have cp1: "canPlay s1" using cp by (simp add: s1_def canPlay_def)
  have ok1: "queue_ok s1" using ok by (simp add: s1_def queue_ok_def)
  have q1: "queued s1 = queued s" by (simp add: s1_def queued_def)
  have ne: "frames s1 \<noteq> []" using cp1 by (simp add: canPlay_def)
  have silent: "\<forall>x \<in> set (drop 0 (replicate n (0::real))). \<not> audible x"
    by (simp add: not_audible_zero)
  have kdef: "k = min (length (replicate n (0::real)) - 0) (length (queued s1))"
    by (simp add: k_def q1)
  obtain s2 where d: "drain (replicate n 0) (int 0) False s1 =
            Some (take 0 (replicate n 0) @ take k (queued s1) @ drop (0 + k) (replicate n 0),
                  int (0 + k),
                  False \<or> (0 < length (replicate n (0::real)) \<and> frames s1 \<noteq> [] \<and>
                     list_ex audible (take 0 (replicate n 0) @ take k (queued s1))), s2)"
    and q2: "queued s2 = drop k (queued s1)" and ok2: "queue_ok s2"
    and emp: "0 + k < length (replicate n (0::real)) \<longrightarrow> frames s2 = []"
    and rec2: "s2 = s1\<lparr>frames := frames s2, offsetInFirstBuffer := offsetInFirstBuffer s2\<rparr>"
    and sub2: "set (frames s2) \<subseteq> set (frames s1)"
    using drain_spec [OF refl ok1 _ silent kdef, of False] by auto
  define anyA where "anyA = list_ex audible (take k (queued s))"
  have any_eq: "(False \<or> (0 < length (replicate n (0::real)) \<and> frames s1 \<noteq> [] \<and>
                     list_ex audible (take 0 (replicate n 0) @ take k (queued s1)))) = anyA"
  proof (cases "n = 0")
    case True
    then show ?thesis by (simp add: k_def anyA_def)
  next
    case False
    then show ?thesis using ne by (simp add: q1 anyA_def)
  qed
  have d': "drain (replicate n 0) 0 False s1 = Some (raw, int k, anyA, s2)"
    using d unfolding any_eq by (simp add: raw_def q1)
  have fs2: "firstOut s2 = firstOut s" "partialBufferSamples s2 = partialBufferSamples s"
    "partialBufferIncrement s2 = partialBufferIncrement s"
    "maxPartialWithIncrements s2 = maxPartialWithIncrements s"
    "totalAudioPlayed s2 = totalAudioPlayed s" "actualAudioPlayed s2 = actualAudioPlayed s"
    "timeInStream s2 = timeInStream s" "started s2 = started s"
    "maxDelay s2 = max (maxDelay s) delay" "minDelay s2 = min (minDelay s) delay"
    "initialBufferSamples s2 = initialBufferSamples s" "maxBufferSamples s2 = maxBufferSamples s"
    "maxBufferSamplesIncrement s2 = maxBufferSamplesIncrement s"
    "maxMaxBufferWithIncrements s2 = maxMaxBufferWithIncrements s"
    "remainingPartialBufferSamples s2 = remainingPartialBufferSamples s"
    "pidx s2 = pidx s" "port s2 = port s"
    by (subst rec2, simp add: s1_def)+
  have st: "started s" using cp by (simp add: canPlay_def)
  have un: "(int k < int n \<and> \<not> anyA) = underrun"
    unfolding underrun_def anyA_def by simp
  define s3 where "s3 = (if firstOut s2 then s2\<lparr>firstOut := False\<rparr> else s2)"
  define s4 where "s4 = (if underrun
       then resetStart (s3\<lparr>partialBufferSamples :=
              min (partialBufferSamples s3 + partialBufferIncrement s3)
                  (maxPartialWithIncrements s3)\<rparr>)
       else s3)"
  define S where "S = s4\<lparr>totalAudioPlayed := totalAudioPlayed s4 + real n / sr,
                        actualAudioPlayed := actualAudioPlayed s4 + real k / sr,
                        timeInStream := timeInStream s4 + real k / sr\<rparr>"
  have s1_unf: "(if canPlay s
      then s\<lparr>maxDelay := max (maxDelay s) (real_of_int (currentSamples s) / sr),
             minDelay := min (minDelay s) (real_of_int (currentSamples s) / sr)\<rparr>
      else s) = s1"
    using cp by (simp add: s1_def delay_def)
  have un': "(int k < int (length (replicate n (0::real))) \<and> \<not> anyA) = underrun"
    using un by simp
  have res: "process sr (replicate n 0) s =
          Some (S, if underrun then fade_out (int k) pre else pre)"
  proof -
    have *: "process sr (replicate n 0) s =
      (let (s3, output2) =
                     (if firstOut s2
                      then (s2\<lparr>firstOut := False\<rparr>, fade_in (int k) raw)
                      else (s2, raw));
                   (s4, output3) =
                     (if underrun
                      then
                        let t1 = s3\<lparr>partialBufferSamples :=
                                      partialBufferSamples s3 + partialBufferIncrement s3\<rparr>;
                            t2 = t1\<lparr>partialBufferSamples :=
                                      min (partialBufferSamples t1) (maxPartialWithIncrements t1)\<rparr>
                        in (resetStart t2, fade_out (int k) output2)
                      else (s3, output2));
                   s5 = s4\<lparr>totalAudioPlayed :=
                             totalAudioPlayed s4 + real (length (replicate n (0::real))) / sr\<rparr>;
                   s6 = s5\<lparr>actualAudioPlayed :=
                             actualAudioPlayed s5 + real_of_int (int k) / sr\<rparr>
               in Some (s6\<lparr>timeInStream := timeInStream s6 + real_of_int (int k) / sr\<rparr>,
                        output3))"
      unfolding process_def Let_def s1_unf
      by (simp only: cp1 not_True_eq_False if_False d' option.case prod.case un')
    show ?thesis
      unfolding *
      by (cases "firstOut s"; cases underrun)
         (simp_all add: Let_def S_def s4_def s3_def fs2 pre_def resetStart_def)
  qed
  have S_fields:
    "frames S = frames s2" "offsetInFirstBuffer S = offsetInFirstBuffer s2"
    by (simp_all add: S_def s4_def s3_def resetStart_def)
  have S_eq: "S = s\<lparr>maxDelay := max (maxDelay s) delay, minDelay := min (minDelay s) delay,
                frames := frames S, offsetInFirstBuffer := offsetInFirstBuffer S,
                firstOut := False,
                partialBufferSamples :=
                  (if underrun
                   then min (partialBufferSamples s + partialBufferIncrement s)
                            (maxPartialWithIncrements s)
                   else partialBufferSamples s),
                started := \<not> underrun,
                totalAudioPlayed := totalAudioPlayed s + real n / sr,
                actualAudioPlayed := actualAudioPlayed s + real k / sr,
                timeInStream := timeInStream s + real k / sr\<rparr>"
    using st
    by (intro processor.equality)
       (simp_all add: S_def s4_def s3_def resetStart_def fs2)
  have "renderTick sr n s = Some (S, if underrun then fade_out (int k) pre else pre)"
    using res by (simp add: renderTick_def)
  moreover have "queue_ok S" using ok2 by (simp add: S_fields queue_ok_def)
  moreover have "queued S = drop k (queued s)"
  proof -
    have "queued S = queued s2" by (simp add: S_fields queued_def)
    then show ?thesis using q2 q1 by simp
  qed
  moreover have "k < n \<longrightarrow> frames S = []" using emp by (simp add: S_fields)
  moreover have "set (frames S) \<subseteq> set (frames s)"
    using sub2 by (simp add: S_fields s1_def)
  ultimately show ?thesis using S_eq by blast
qed

lemma underrun_common:
  fixes n :: nat and sr :: real
  assumes "queue_ok s" and "canPlay s" and "length (queued s) < n"
  defines "k \<equiv> length (queued s)"
  defines "raw \<equiv> queued s @ replicate (n - k) 0"
  defines "pre \<equiv> (if firstOut s then fade_in (int k) raw else raw)"
  shows "\<exists>t. renderTick sr n s =
              Some (t, if list_ex audible (queued s) then pre else fade_out (int k) pre)
     \<and> queued t = [] \<and> started t = list_ex audible (queued s)
     \<and> partialBufferSamples t =
         (if list_ex audible (queued s) then partialBufferSamples s
          else min (partialBufferSamples s + partialBufferIncrement s)
                   (maxPartialWithIncrements s))
     \<and> length pre = n \<and> (\<forall>i. k \<le> i \<and> i < n \<longrightarrow> pre ! i = 0)"
proof -
  define underrun where "underrun = (\<not> list_ex audible (queued s))"
  define delay where "delay = real_of_int (currentSamples s) / sr"
  have kmin: "min n (length (queued s)) = k" using assms(3) by (simp add: k_def)
  have un: "(k < n \<and> \<not> list_ex audible (take k (queued s))) = underrun"
    using assms(3) by (simp add: k_def underrun_def)
  have raw': "take k (queued s) @ replicate (n - k) 0 = raw"
    by (simp add: raw_def k_def)
  obtain t where rt: "renderTick sr n s = Some (t, if underrun then fade_out (int k) pre else pre)"
    and q: "queued t = drop k (queued s)"
    and rec: "t = s\<lparr>maxDelay := max (maxDelay s) delay, minDelay := min (minDelay s) delay,
                frames := frames t, offsetInFirstBuffer := offsetInFirstBuffer t,
                firstOut := False,
                partialBufferSamples :=
                  (if underrun
                   then min (partialBufferSamples s + partialBufferIncrement s)
                            (maxPartialWithIncrements s)
                   else partialBufferSamples s),
                started := \<not> underrun,
                totalAudioPlayed := totalAudioPlayed s + real n / sr,
                actualAudioPlayed := actualAudioPlayed s + real k / sr,
                timeInStream := timeInStream s + real k / sr\<rparr>"
    using process_play [OF assms(1,2), of sr n]
    unfolding kmin un raw' pre_def [symmetric] delay_def [symmetric]
    by blast
  have f: "started t = (\<not> underrun)"
    "partialBufferSamples t = (if underrun
                   then min (partialBufferSamples s + partialBufferIncrement s)
                            (maxPartialWithIncrements s)
                   else partialBufferSamples s)"
    by (subst rec, simp)+
  have qt: "queued t = []" using q by (simp add: k_def)
  have lraw: "length raw = n" using assms(3) by (simp add: raw_def k_def)
  have lpre: "length pre = n"
    using lraw by (simp add: pre_def fade_in_def ramp_length)
  have pre_tail: "pre ! i = 0" if "k \<le> i" "i < n" for i
  proof -
    have "raw ! i = 0" using that by (simp add: raw_def nth_append k_def)
    moreover have "pre ! i = raw ! i"
      using that lraw by (simp add: pre_def fade_in_def ramp_nth)
    ultimately show ?thesis by simp
  qed
  have lout: "length (if underrun then fade_out (int k) pre else pre) = n"
    using lpre by (simp add: fade_out_def ramp_length)
  have "renderTick sr n s =
              Some (t, if list_ex audible (queued s) then pre else fade_out (int k) pre)"
    using rt by (simp add: underrun_def)
  moreover have "started t = list_ex audible (queued s)" using f(1) by (simp add: underrun_def)
  moreover have "partialBufferSamples t =
         (if list_ex audible (queued s) then partialBufferSamples s
          else min (partialBufferSamples s + partialBufferIncrement s)
                   (maxPartialWithIncrements s))"
    using f(2) by (simp add: underrun_def)
  moreover have "\<forall>i. k \<le> i \<and> i < n \<longrightarrow> pre ! i = 0" using pre_tail by blast
  ultimately show ?thesis using qt lpre by blast
qed

subsection \<open>Events\<close>

lemma currentSamples_push:
  "currentSamples (s\<lparr>frames := frames s @ [f]\<rparr>) = currentSamples s + int (length f)"
  by (simp add: currentSamples_def)

lemma well_formed_push:
  assumes "well_formed sr s"
  shows "well_formed sr (s\<lparr>frames := frames s @ [f]\<rparr>)"
  using assms queue_ok_push [of s f] by (simp add: well_formed_def)

lemma onmessage_audio_spec:
  fixes f :: "sample list"
  assumes wf: "well_formed sr s"
  defines "cur \<equiv> currentSamples s + int (length f)"
  defines "starts \<equiv> initialBufferSamples s \<le> cur \<and> \<not> started s"
  shows "\<exists>s'. onmessage sr (Audio f) s = Some s' \<and> well_formed sr s'
     \<and> queued s' = (if overflows f s
                     then drop (nat (cur - (initialBufferSamples s + partialBufferSamples s)))
                               (queued s @ f)
                     else queued s @ f)
     \<and> set (frames s') \<subseteq> set (frames s) \<union> {f}
     \<and> (\<not> overflows f s \<longrightarrow> frames s' = frames s @ [f]
                     \<and> offsetInFirstBuffer s' = offsetInFirstBuffer s
                     \<and> timeInStream s' = timeInStream s)
     \<and> s' = s\<lparr>frames := frames s', offsetInFirstBuffer := offsetInFirstBuffer s',
               timeInStream := timeInStream s',
               started := (started s \<or> initialBufferSamples s \<le> cur),
               remainingPartialBufferSamples :=
                 (if starts then partialBufferSamples s else remainingPartialBufferSamples s),
               firstOut := (starts \<or> firstOut s),
               pidx := (if pidx s < 20 then pidx s + 1 else pidx s),
               maxBufferSamples :=
                 (if overflows f s then min (maxMaxBufferWithIncrements s)
                                   (maxBufferSamples s + maxBufferSamplesIncrement s)
                  else maxBufferSamples s),
               port := port s @
                 [\<lparr>t_totalAudioPlayed = totalAudioPlayed s,
                   t_actualAudioPlayed = actualAudioPlayed s,
                   t_delay = real_of_int (currentSamples s') / sr,
                   t_minDelay = minDelay s, t_maxDelay = maxDelay s\<rparr>]\<rparr>"
proof -
  define s0 where "s0 = s\<lparr>frames := frames s @ [f]\<rparr>"
  have wf0: "well_formed sr s0" using well_formed_push [OF wf] by (simp add: s0_def)
  have ok: "queue_ok s" using wf by (simp add: well_formed_def)
  have c0: "currentSamples s0 = cur" by (simp add: s0_def currentSamples_push cur_def)
  have q0: "queued s0 = queued s @ f" using queued_push [OF ok] by (simp add: s0_def)
  have ov: "(totalMaxBufferSamples s0 \<le> cur) = overflows f s"
    by (simp add: overflows_def Let_def s0_def cur_def currentSamples_push)
  have f0: "initialBufferSamples s0 = initialBufferSamples s"
    "partialBufferSamples s0 = partialBufferSamples s" "started s0 = started s"
    "remainingPartialBufferSamples s0 = remainingPartialBufferSamples s"
    "firstOut s0 = firstOut s" "pidx s0 = pidx s"
    "maxMaxBufferWithIncrements s0 = maxMaxBufferWithIncrements s"
    "maxBufferSamples s0 = maxBufferSamples s"
    "maxBufferSamplesIncrement s0 = maxBufferSamplesIncrement s"
    "port s0 = port s" "totalAudioPlayed s0 = totalAudioPlayed s"
    "actualAudioPlayed s0 = actualAudioPlayed s" "minDelay s0 = minDelay s"
    "maxDelay s0 = maxDelay s" "frames s0 = frames s @ [f]"
    "offsetInFirstBuffer s0 = offsetInFirstBuffer s" "timeInStream s0 = timeInStream s"
    by (simp_all add: s0_def)
  obtain s' where pf: "processFrame sr f s0 = Some s'" and wf': "well_formed sr s'"
    and q': "queued s' = (if overflows f s
                     then drop (nat (cur - (initialBufferSamples s + partialBufferSamples s)))
                               (queued s @ f)
                     else queued s @ f)"
    and sub: "set (frames s') \<subseteq> set (frames s @ [f])"
    and same: "\<not> overflows f s \<longrightarrow> frames s' = frames s @ [f]
                     \<and> offsetInFirstBuffer s' = offsetInFirstBuffer s
                     \<and> timeInStream s' = timeInStream s"
    and rec: "s' = s0\<lparr>frames := frames s', offsetInFirstBuffer := offsetInFirstBuffer s',
               timeInStream := timeInStream s',
               started := (started s \<or> initialBufferSamples s \<le> cur),
               remainingPartialBufferSamples :=
                 (if starts then partialBufferSamples s else remainingPartialBufferSamples s),
               firstOut := (starts \<or> firstOut s),
               pidx := (if pidx s < 20 then pidx s + 1 else pidx s),
               maxBufferSamples :=
                 (if overflows f s then min (maxMaxBufferWithIncrements s)
                                   (maxBufferSamples s + maxBufferSamplesIncrement s)
                  else maxBufferSamples s),
               port := port s @
                 [\<lparr>t_totalAudioPlayed = totalAudioPlayed s,
                   t_actualAudioPlayed = actualAudioPlayed s,
                   t_delay = real_of_int (currentSamples s') / sr,
                   t_minDelay = minDelay s, t_maxDelay = maxDelay s\<rparr>]\<rparr>"
    using processFrame_spec [OF wf0, of f]
    unfolding c0 ov q0 f0 starts_def [symmetric] by blast
  have "onmessage sr (Audio f) s = Some s'" using pf by (simp add: s0_def)
  moreover have "set (frames s') \<subseteq> set (frames s) \<union> {f}"
    using sub by auto
  moreover have "\<not> overflows f s \<longrightarrow> frames s' = frames s @ [f]
                     \<and> offsetInFirstBuffer s' = offsetInFirstBuffer s
                     \<and> timeInStream s' = timeInStream s"
    using same by simp
  moreover have "s' = s\<lparr>frames := frames s', offsetInFirstBuffer := offsetInFirstBuffer s',
               timeInStream := timeInStream s',
               started := (started s \<or> initialBufferSamples s \<le> cur),
               remainingPartialBufferSamples :=
                 (if starts then partialBufferSamples s else remainingPartialBufferSamples s),
               firstOut := (starts \<or> firstOut s),
               pidx := (if pidx s < 20 then pidx s + 1 else pidx s),
               maxBufferSamples :=
                 (if overflows f s then min (maxMaxBufferWithIncrements s)
                                   (maxBufferSamples s + maxBufferSamplesIncrement s)
                  else maxBufferSamples s),
               port := port s @
                 [\<lparr>t_totalAudioPlayed = totalAudioPlayed s,
                   t_actualAudioPlayed = actualAudioPlayed s,
                   t_delay = real_of_int (currentSamples s') / sr,
                   t_minDelay = minDelay s, t_maxDelay = maxDelay s\<rparr>]\<rparr>"
    by (subst rec) (simp add: s0_def)
  ultimately show ?thesis using wf' q' by blast
qed

lemma renderTick_well_formed:
  assumes wf: "well_formed sr s"
  shows "\<exists>s' out. renderTick sr n s = Some (s', out) \<and> well_formed sr s'
          \<and> set (frames s') \<subseteq> set (frames s) \<and> port s' = port s
          \<and> (started s' \<longrightarrow> started s) \<and> length out = n"
proof (cases "canPlay s")
  case False
  then show ?thesis
    using wf process_silent [OF False, of sr "replicate n 0"]
    by (simp add: renderTick_def well_formed_def queue_ok_def)
next
  case True
  have ok: "queue_ok s" using wf by (simp add: well_formed_def)
  have st: "started s" using True by (simp add: canPlay_def)
  obtain s' out where r: "renderTick sr n s = Some (s', out)"
    and ok': "queue_ok s'" and sub: "set (frames s') \<subseteq> set (frames s)"
    and f: "initialBufferSamples s' = initialBufferSamples s"
      "partialBufferSamples s' = partialBufferSamples s \<or>
       partialBufferSamples s' = min (partialBufferSamples s + partialBufferIncrement s)
                            (maxPartialWithIncrements s)"
      "maxPartialWithIncrements s' = maxPartialWithIncrements s"
      "maxBufferSamples s' = maxBufferSamples s"
      "partialBufferIncrement s' = partialBufferIncrement s"
      "maxBufferSamplesIncrement s' = maxBufferSamplesIncrement s"
      "maxMaxBufferWithIncrements s' = maxMaxBufferWithIncrements s"
      "port s' = port s"
    and len: "length out = n"
  proof -
    define k where "k = min n (length (queued s))"
    define underrun where "underrun = (k < n \<and> \<not> list_ex audible (take k (queued s)))"
    define raw where "raw = take k (queued s) @ replicate (n - k) 0"
    define pre where "pre = (if firstOut s then fade_in (int k) raw else raw)"
    define delay where "delay = real_of_int (currentSamples s) / sr"
    obtain s' where r: "renderTick sr n s = Some (s', if underrun then fade_out (int k) pre else pre)"
      and ok': "queue_ok s'" and sub: "set (frames s') \<subseteq> set (frames s)"
      and rec: "s' = s\<lparr>maxDelay := max (maxDelay s) delay, minDelay := min (minDelay s) delay,
                frames := frames s', offsetInFirstBuffer := offsetInFirstBuffer s',
                firstOut := False,
                partialBufferSamples :=
                  (if underrun
                   then min (partialBufferSamples s + partialBufferIncrement s)
                            (maxPartialWithIncrements s)
                   else partialBufferSamples s),
                started := \<not> underrun,
                totalAudioPlayed := totalAudioPlayed s + real n / sr,
                actualAudioPlayed := actualAudioPlayed s + real k / sr,
                timeInStream := timeInStream s + real k / sr\<rparr>"
      using process_play [OF ok True, of sr n]
      unfolding k_def [symmetric] underrun_def [symmetric] raw_def [symmetric]
        pre_def [symmetric] delay_def [symmetric]
      by blast
    have "length raw = n" by (simp add: raw_def k_def)
    then have "length (if underrun then fade_out (int k) pre else pre) = n"
      by (simp add: pre_def fade_in_def fade_out_def ramp_length)
    moreover have "initialBufferSamples s' = initialBufferSamples s"
      "partialBufferSamples s' = partialBufferSamples s \<or>
       partialBufferSamples s' = min (partialBufferSamples s + partialBufferIncrement s)
                            (maxPartialWithIncrements s)"
      "maxPartialWithIncrements s' = maxPartialWithIncrements s"
      "maxBufferSamples s' = maxBufferSamples s"
      "partialBufferIncrement s' = partialBufferIncrement s"
      "maxBufferSamplesIncrement s' = maxBufferSamplesIncrement s"
      "maxMaxBufferWithIncrements s' = maxMaxBufferWithIncrements s"
      "port s' = port s"
      by (subst rec, simp)+
    ultimately show ?thesis using that r ok' sub by blast
  qed
  have "well_formed sr s'"
    using wf ok' f by (auto simp: well_formed_def)
  then show ?thesis using r sub f(8) st len by auto
qed

lemma step_well_formed:
  assumes "0 \<le> sr" and "well_formed sr s"
  shows "\<exists>s'. step sr e s = Some s' \<and> well_formed sr s'"
proof (cases e)
  case (Message m)
  show ?thesis
  proof (cases m)
    case Reset
    then show ?thesis using Message well_formed_initState [OF assms] by simp
  next
    case (Audio f)
    then show ?thesis using Message onmessage_audio_spec [OF assms(2), of f] by auto
  next
    case Other_message
    then show ?thesis using Message assms(2) by simp
  qed
next
  case (Tick n)
  then show ?thesis using renderTick_well_formed [OF assms(2), of n] by auto
qed

lemma run_well_formed:
  assumes "0 \<le> sr" and "well_formed sr s"
  shows "\<exists>s'. run sr es s = Some s' \<and> well_formed sr s'"
  using assms(2)
proof (induction es arbitrary: s)
  case Nil
  then show ?case by simp
next
  case (Cons e es)
  obtain s1 where "step sr e s = Some s1" and "well_formed sr s1"
    using step_well_formed [OF assms(1) Cons.prems] by blast
  then show ?case using Cons.IH [of s1] by simp
qed

lemma reachable_well_formed:
  assumes "0 \<le> sr"
  shows "\<exists>s. run sr es (constructor sr) = Some s \<and> well_formed sr s"
  using run_well_formed [OF assms well_formed_constructor [OF assms]] .


lemma step_frames:
  assumes "well_formed sr s" and "step sr e s = Some s'"
  shows "set (frames s') \<subseteq> set (frames s) \<union> {f. e = Message (Audio f)}"
proof (cases e)
  case (Message m)
  show ?thesis
  proof (cases m)
    case Reset
    then show ?thesis using Message assms(2) by (auto simp: initState_def resetStart_def Let_def)
  next
    case (Audio f)
    then show ?thesis using Message assms(2) onmessage_audio_spec [OF assms(1), of f] by auto
  next
    case Other_message
    then show ?thesis using Message assms(2) by auto
  qed
next
  case (Tick n)
  then show ?thesis using renderTick_well_formed [OF assms(1), of n] assms(2) by auto
qed

lemma run_frames:
  assumes "0 \<le> sr" and "well_formed sr s" and "run sr es s = Some s'"
  shows "set (frames s') \<subseteq> set (frames s) \<union> {f. Message (Audio f) \<in> set es}"
  using assms(2,3)
proof (induction es arbitrary: s)
  case Nil
  then show ?case by simp
next
  case (Cons e es)
  obtain s1 where s1: "step sr e s = Some s1" and wf1: "well_formed sr s1"
    using step_well_formed [OF assms(1) Cons.prems(1)] by blast
  have "run sr es s1 = Some s'" using Cons.prems(2) s1 by simp
  then have "set (frames s') \<subseteq> set (frames s1) \<union> {f. Message (Audio f) \<in> set es}"
    using Cons.IH [OF wf1] by simp
  moreover have "set (frames s1) \<subseteq> set (frames s) \<union> {f. e = Message (Audio f)}"
    using step_frames [OF Cons.prems(1) s1] .
  ultimately show ?case by auto
qed

lemma step_port:
  assumes "well_formed sr s" and "step sr e s = Some s'"
  shows "length (port s') = length (port s) + (if is_audio e then 1 else 0)"
proof (cases e)
  case (Message m)
  show ?thesis
  proof (cases m)
    case Reset
    then show ?thesis using Message assms(2) by (auto simp: initState_def resetStart_def Let_def)
  next
    case (Audio f)
    obtain t where t: "onmessage sr (Audio f) s = Some t"
      and p: "port t = port s @
                 [\<lparr>t_totalAudioPlayed = totalAudioPlayed s,
                   t_actualAudioPlayed = actualAudioPlayed s,
                   t_delay = real_of_int (currentSamples t) / sr,
                   t_minDelay = minDelay s, t_maxDelay = maxDelay s\<rparr>]"
    proof -
      obtain t where t: "onmessage sr (Audio f) s = Some t"
        and rec: "t = s\<lparr>frames := frames t, offsetInFirstBuffer := offsetInFirstBuffer t,
               timeInStream := timeInStream t,
               started := (started s \<or> initialBufferSamples s \<le> currentSamples s + int (length f)),
               remainingPartialBufferSamples :=
                 (if initialBufferSamples s \<le> currentSamples s + int (length f) \<and> \<not> started s
                  then partialBufferSamples s else remainingPartialBufferSamples s),
               firstOut := ((initialBufferSamples s \<le> currentSamples s + int (length f) \<and> \<not> started s)
                            \<or> firstOut s),
               pidx := (if pidx s < 20 then pidx s + 1 else pidx s),
               maxBufferSamples :=
                 (if overflows f s then min (maxMaxBufferWithIncrements s)
                                   (maxBufferSamples s + maxBufferSamplesIncrement s)
                  else maxBufferSamples s),
               port := port s @
                 [\<lparr>t_totalAudioPlayed = totalAudioPlayed s,
                   t_actualAudioPlayed = actualAudioPlayed s,
                   t_delay = real_of_int (currentSamples t) / sr,
                   t_minDelay = minDelay s, t_maxDelay = maxDelay s\<rparr>]\<rparr>"
        using onmessage_audio_spec [OF assms(1), of f] by blast
      have "port t = port s @
                 [\<lparr>t_totalAudioPlayed = totalAudioPlayed s,
                   t_actualAudioPlayed = actualAudioPlayed s,
                   t_delay = real_of_int (currentSamples t) / sr,
                   t_minDelay = minDelay s, t_maxDelay = maxDelay s\<rparr>]"
        by (subst rec) simp
      then show ?thesis using that t by blast
    qed
    then show ?thesis using Message Audio assms(2) by simp
  next
    case Other_message
    then show ?thesis using Message assms(2) by auto
  qed
next
  case (Tick n)
  then show ?thesis using renderTick_well_formed [OF assms(1), of n] assms(2) by auto
qed

lemma run_port:
  assumes "0 \<le> sr" and "well_formed sr s" and "run sr es s = Some s'"
  shows "length (port s') = length (port s) + length (filter is_audio es)"
  using assms(2,3)
proof (induction es arbitrary: s)
  case Nil
  then show ?case by simp
next
  case (Cons e es)
  obtain s1 where s1: "step sr e s = Some s1" and wf1: "well_formed sr s1"
    using step_well_formed [OF assms(1) Cons.prems(1)] by blast
  have "run sr es s1 = Some s'" using Cons.prems(2) s1 by simp
  then have "length (port s') = length (port s1) + length (filter is_audio es)"
    using Cons.IH [OF wf1] by simp
  then show ?case using step_port [OF Cons.prems(1) s1] by simp
qed

subsection \<open>A new processor at 24 kHz\<close>

lemma constructor_24000:
  "constructor 24000 =
     \<lparr>initialBufferSamples = 1920, partialBufferSamples = 240, maxBufferSamples = 7200000,
      partialBufferIncrement = 12000, maxPartialWithIncrements = 144000,
      maxBufferSamplesIncrement = 12000, maxMaxBufferWithIncrements = 144000,
      frames = [], offsetInFirstBuffer = 0, firstOut = False,
      remainingPartialBufferSamples = 0, timeInStream = 0, started = False,
      totalAudioPlayed = 0, actualAudioPlayed = 0, maxDelay = 0, minDelay = 2000,
      pidx = 0, port = []\<rparr>"
  by (simp add: constructor_def initState_def resetStart_def asSamples_def
        DEFAULT_MAX_BUFFER_MS_def Let_def)

subsection \<open>The copying loop terminates\<close>

text \<open>
  Claim C10. In every state reachable from a new processor the queue satisfies
  \<open>queue_ok\<close> and the render callback returns (no exception; the loop is a total
  function by its termination proof). Every iteration of the loop from such a queue
  keeps \<open>queue_ok\<close> and either advances the write index or retires the head frame;
  an iteration that copies nothing meets a fully consumed head frame and retires it.
\<close>

theorem drain_loop_progress:
  assumes "0 < sr"
  shows "\<exists>s. run sr es (constructor sr) = Some s \<and> queue_ok s
     \<and> (\<exists>s' out. renderTick sr n s = Some (s', out) \<and> length out = n)
     \<and> (\<forall>outp i anyAudio t. queue_ok t \<and> i < length outp \<and> frames t \<noteq> [] \<longrightarrow>
          (\<exists>out1 i1 any1 t1.
              drain_body outp (int i) anyAudio t = Some (out1, int i1, any1, t1)
            \<and> queue_ok t1 \<and> length out1 = length outp \<and> i1 \<le> length outp
            \<and> (i < i1 \<or> length (frames t1) < length (frames t))
            \<and> (i1 = i \<longrightarrow> offsetInFirstBuffer t = length (hd (frames t))
                          \<and> frames t1 = tl (frames t))))"
proof -
  obtain s where r: "run sr es (constructor sr) = Some s" and wf: "well_formed sr s"
    using reachable_well_formed [of sr es] assms by auto
  have ok: "queue_ok s" using wf by (simp add: well_formed_def)
  have tick: "\<exists>s' out. renderTick sr n s = Some (s', out) \<and> length out = n"
    using renderTick_well_formed [OF wf, of n] by blast
  have iter: "\<exists>out1 i1 any1 t1.
              drain_body outp (int i) anyAudio t = Some (out1, int i1, any1, t1)
            \<and> queue_ok t1 \<and> length out1 = length outp \<and> i1 \<le> length outp
            \<and> (i < i1 \<or> length (frames t1) < length (frames t))
            \<and> (i1 = i \<longrightarrow> offsetInFirstBuffer t = length (hd (frames t))
                          \<and> frames t1 = tl (frames t))"
    if t: "queue_ok t" "i < length outp" "frames t \<noteq> []" for outp i anyAudio t
  proof -
    obtain first rest where fr: "frames t = first # rest"
      using t(3) by (cases "frames t") auto
    define off where "off = offsetInFirstBuffer t"
    define c where "c = min (length first - off) (length outp - i)"
    define out1 where "out1 = take i outp @ take c (drop off first) @ drop (i + c) outp"
    define t1 where "t1 = (if off + c = length first
                 then t\<lparr>offsetInFirstBuffer := 0, frames := rest\<rparr>
                 else t\<lparr>offsetInFirstBuffer := off + c\<rparr>)"
    have body: "drain_body outp (int i) anyAudio t =
                  Some (out1, int (i + c), anyAudio \<or> list_ex audible out1, t1)"
      using drain_body_spec [OF t(1) fr t(2), of anyAudio]
      by (simp add: c_def out1_def t1_def off_def)
    have offle: "off \<le> length first"
      using queue_ok_offset_le [OF t(1) fr] by (simp add: off_def)
    have cle: "off + c \<le> length first" "i + c \<le> length outp"
      using offle t(2) by (simp_all add: c_def)
    have "queue_ok t1"
      using cle(1) fr by (auto simp: t1_def queue_ok_def)
    moreover have "length out1 = length outp"
      using cle by (simp add: out1_def)
    moreover have "i < i + c \<or> length (frames t1) < length (frames t)"
    proof (cases "c = 0")
      case True
      then have "off + c = length first" using t(2) offle by (simp add: c_def min_def split: if_splits)
      then show ?thesis using fr by (simp add: t1_def)
    next
      case False
      then show ?thesis by simp
    qed
    moreover have "i + c = i \<longrightarrow> offsetInFirstBuffer t = length (hd (frames t))
                          \<and> frames t1 = tl (frames t)"
    proof
      assume "i + c = i"
      then have c0: "c = 0" by simp
      then have "off + c = length first" using t(2) offle by (simp add: c_def min_def split: if_splits)
      then show "offsetInFirstBuffer t = length (hd (frames t)) \<and> frames t1 = tl (frames t)"
        using fr c0 by (simp add: t1_def off_def)
    qed
    ultimately show ?thesis using body cle(2) by blast
  qed
  show ?thesis using r ok tick iter by blast
qed

theorem drain_loop_progress_witness:
  "\<exists>s. run 24000 [Message (Audio []), Message (Audio [1 / 2])] (constructor 24000) = Some s
     \<and> queue_ok s \<and> frames s = [[], [1 / 2]]
     \<and> (\<exists>s' out. renderTick 24000 128 s = Some (s', out) \<and> length out = 128)
     \<and> (\<exists>out1 i1 any1 t1.
              drain_body (replicate 128 0) (int 0) False s = Some (out1, int i1, any1, t1)
            \<and> queue_ok t1 \<and> i1 = 0 \<and> frames t1 = [[1 / 2]])"
proof -
  have pos: "(0::real) < 24000" by simp
  obtain s where r: "run 24000 [Message (Audio []), Message (Audio [1 / 2])] (constructor 24000) = Some s"
    and ok: "queue_ok s"
    and tick: "\<exists>s' out. renderTick 24000 128 s = Some (s', out) \<and> length out = 128"
    and iter: "\<forall>outp i anyAudio t. queue_ok t \<and> i < length outp \<and> frames t \<noteq> [] \<longrightarrow>
          (\<exists>out1 i1 any1 t1.
              drain_body outp (int i) anyAudio t = Some (out1, int i1, any1, t1)
            \<and> queue_ok t1 \<and> length out1 = length outp \<and> i1 \<le> length outp
            \<and> (i < i1 \<or> length (frames t1) < length (frames t))
            \<and> (i1 = i \<longrightarrow> offsetInFirstBuffer t = length (hd (frames t))
                          \<and> frames t1 = tl (frames t)))"
    using drain_loop_progress [OF pos, of "[Message (Audio []), Message (Audio [1 / 2])]" 128]
    by blast
  have fr: "frames s = [[], [1 / 2]]" and off: "offsetInFirstBuffer s = 0"
    using r
    by (auto simp: constructor_24000 processFrame_def currentSamples_def
          totalMaxBufferSamples_def Let_def)
  have "\<exists>out1 i1 any1 t1.
              drain_body (replicate 128 0) (int 0) False s = Some (out1, int i1, any1, t1)
            \<and> queue_ok t1 \<and> i1 = 0 \<and> frames t1 = [[1 / 2]]"
    using iter [rule_format, of s 0 "replicate 128 0" False] ok fr off
    by (auto simp: drain_body_def subarray_def array_set_def Let_def)
  then show ?thesis using r ok tick fr by blast
qed


subsection \<open>The invariant of the frame queue\<close>

text \<open>
  Claim C7, as amended. In every state reachable from a new processor by pushes, resets
  and render callbacks: when the queue is not empty the offset is strictly inside the
  head frame, or the head is a frame of length zero and the offset is 0; when no frame
  of length zero was pushed the offset is strictly inside the head frame; with an
  empty queue the offset is 0; and the available sample count is the sum of the frame
  lengths minus the offset, which is the number of samples still queued.
\<close>

theorem frame_queue_invariant:
  assumes "0 < sr"
  shows "\<exists>s. run sr es (constructor sr) = Some s
     \<and> (frames s \<noteq> [] \<longrightarrow>
            offsetInFirstBuffer s < length (hd (frames s)) \<or>
            (hd (frames s) = [] \<and> offsetInFirstBuffer s = 0))
     \<and> ((\<forall>f. Message (Audio f) \<in> set es \<longrightarrow> f \<noteq> []) \<longrightarrow> frames s \<noteq> [] \<longrightarrow>
            offsetInFirstBuffer s < length (hd (frames s)))
     \<and> (frames s = [] \<longrightarrow> offsetInFirstBuffer s = 0)
     \<and> currentSamples s =
           int (sum_list (map length (frames s))) - int (offsetInFirstBuffer s)
     \<and> currentSamples s = int (length (queued s))"
proof -
  have sr: "0 \<le> sr" using assms by simp
  obtain s where r: "run sr es (constructor sr) = Some s" and wf: "well_formed sr s"
    using reachable_well_formed [OF sr, of es] by auto
  have ok: "queue_ok s" using wf by (simp add: well_formed_def)
  have sub: "set (frames s) \<subseteq> {f. Message (Audio f) \<in> set es}"
    using run_frames [OF sr well_formed_constructor [OF sr] r]
    by (simp add: constructor_def initState_def resetStart_def Let_def)
  have weak: "frames s \<noteq> [] \<longrightarrow>
            offsetInFirstBuffer s < length (hd (frames s)) \<or>
            (hd (frames s) = [] \<and> offsetInFirstBuffer s = 0)"
    using ok by (auto simp: queue_ok_def)
  have strict: "offsetInFirstBuffer s < length (hd (frames s))"
    if "\<forall>f. Message (Audio f) \<in> set es \<longrightarrow> f \<noteq> []" and "frames s \<noteq> []"
  proof -
    have "hd (frames s) \<in> set (frames s)" using that(2) by simp
    then have "hd (frames s) \<noteq> []" using sub that(1) by auto
    then show ?thesis using weak that(2) by auto
  qed
  have empty: "frames s = [] \<longrightarrow> offsetInFirstBuffer s = 0"
    using ok by (auto simp: queue_ok_def)
  have "currentSamples s = int (sum_list (map length (frames s))) - int (offsetInFirstBuffer s)"
    by (simp add: currentSamples_def)
  then show ?thesis
    using r weak strict empty currentSamples_queued [OF ok] by blast
qed

theorem frame_queue_invariant_witness:
  "\<exists>s. run 24000 [Message (Audio [1 / 2, 1 / 4]), Tick 128, Message Reset,
                    Message (Audio [1 / 8])] (constructor 24000) = Some s
     \<and> frames s = [[1 / 8]]
     \<and> offsetInFirstBuffer s < length (hd (frames s))
     \<and> currentSamples s = 1"
proof -
  have pos: "(0::real) < 24000" by simp
  obtain s where r: "run 24000 [Message (Audio [1 / 2, 1 / 4]), Tick 128, Message Reset,
                    Message (Audio [1 / 8])] (constructor 24000) = Some s"
    and strict: "(\<forall>f. Message (Audio f) \<in> set [Message (Audio [1 / 2, 1 / 4]), Tick 128,
                      Message Reset, Message (Audio [1 / 8 :: real])] \<longrightarrow> f \<noteq> [])
            \<longrightarrow> frames s \<noteq> [] \<longrightarrow> offsetInFirstBuffer s < length (hd (frames s))"
    and cur: "currentSamples s = int (length (queued s))"
    using frame_queue_invariant [OF pos, of "[Message (Audio [1 / 2, 1 / 4]), Tick 128,
                      Message Reset, Message (Audio [1 / 8])]"]
    by blast
  have fr: "frames s = [[1 / 8]]" and off: "offsetInFirstBuffer s = 0"
    using r
    by (auto simp: constructor_24000 processFrame_def currentSamples_def renderTick_def
          process_def canPlay_def initState_def resetStart_def asSamples_def
          DEFAULT_MAX_BUFFER_MS_def totalMaxBufferSamples_def Let_def)
  have "offsetInFirstBuffer s < length (hd (frames s))"
    using strict fr by auto
  moreover have "currentSamples s = 1"
    using cur fr off by (simp add: queued_def)
  ultimately show ?thesis using r fr by blast
qed

text \<open>
  Claim C7 as stated fails after the push of a frame of length zero into an empty
  queue: the queue is not empty and the offset 0 is not below the length 0 of its
  head.
\<close>

theorem zero_length_head_counterexample:
  "map_option frames (run 24000 [Message (Audio [])] (constructor 24000)) = Some [[]]
   \<and> map_option offsetInFirstBuffer (run 24000 [Message (Audio [])] (constructor 24000))
       = Some 0
   \<and> length (hd [[] :: sample list]) = 0"
  by (simp add: constructor_24000 processFrame_def currentSamples_def
        totalMaxBufferSamples_def Let_def)

subsection \<open>Telemetry\<close>

text \<open>
  Claim C4, as amended. Telemetry is posted by \<open>processFrame\<close>, once for every pushed
  frame, and never by the render callback: in every state reachable from a new
  processor the number of telemetry messages posted so far is the number of frames
  pushed; a render callback leaves the port as it is; a push appends one message holding
  \<open>totalAudioPlayed\<close>, \<open>actualAudioPlayed\<close>, the buffered delay (available samples
  over the sample rate), \<open>minDelay\<close> and \<open>maxDelay\<close>.
\<close>

theorem telemetry_per_push:
  assumes "0 < sr"
  shows "\<exists>s. run sr es (constructor sr) = Some s
     \<and> length (port s) = length (filter is_audio es)
     \<and> (\<forall>n. \<exists>s' out. renderTick sr n s = Some (s', out) \<and> port s' = port s)
     \<and> (\<forall>f. \<exists>s'. onmessage sr (Audio f) s = Some s' \<and>
            port s' = port s @
              [\<lparr>t_totalAudioPlayed = totalAudioPlayed s',
                t_actualAudioPlayed = actualAudioPlayed s',
                t_delay = real_of_int (currentSamples s') / sr,
                t_minDelay = minDelay s', t_maxDelay = maxDelay s'\<rparr>])"
proof -
  have sr: "0 \<le> sr" using assms by simp
  obtain s where r: "run sr es (constructor sr) = Some s" and wf: "well_formed sr s"
    using reachable_well_formed [OF sr, of es] by auto
  have "length (port s) = length (port (constructor sr)) + length (filter is_audio es)"
    using run_port [OF sr well_formed_constructor [OF sr] r] .
  then have count: "length (port s) = length (filter is_audio es)"
    by (simp add: constructor_def initState_def resetStart_def Let_def)
  have tick: "\<exists>s' out. renderTick sr n s = Some (s', out) \<and> port s' = port s" for n
    using renderTick_well_formed [OF wf, of n] by blast
  have push: "\<exists>s'. onmessage sr (Audio f) s = Some s' \<and>
            port s' = port s @
              [\<lparr>t_totalAudioPlayed = totalAudioPlayed s',
                t_actualAudioPlayed = actualAudioPlayed s',
                t_delay = real_of_int (currentSamples s') / sr,
                t_minDelay = minDelay s', t_maxDelay = maxDelay s'\<rparr>]" for f
  proof -
    obtain t where t: "onmessage sr (Audio f) s = Some t"
      and rec: "t = s\<lparr>frames := frames t, offsetInFirstBuffer := offsetInFirstBuffer t,
               timeInStream := timeInStream t,
               started := (started s \<or> initialBufferSamples s \<le> currentSamples s + int (length f)),
               remainingPartialBufferSamples :=
                 (if initialBufferSamples s \<le> currentSamples s + int (length f) \<and> \<not> started s
                  then partialBufferSamples s else remainingPartialBufferSamples s),
               firstOut := ((initialBufferSamples s \<le> currentSamples s + int (length f) \<and> \<not> started s)
                            \<or> firstOut s),
               pidx := (if pidx s < 20 then pidx s + 1 else pidx s),
               maxBufferSamples :=
                 (if overflows f s then min (maxMaxBufferWithIncrements s)
                                   (maxBufferSamples s + maxBufferSamplesIncrement s)
                  else maxBufferSamples s),
               port := port s @
                 [\<lparr>t_totalAudioPlayed = totalAudioPlayed s,
                   t_actualAudioPlayed = actualAudioPlayed s,
                   t_delay = real_of_int (currentSamples t) / sr,
                   t_minDelay = minDelay s, t_maxDelay = maxDelay s\<rparr>]\<rparr>"
      using onmessage_audio_spec [OF wf, of f] by blast
    have "port t = port s @
                 [\<lparr>t_totalAudioPlayed = totalAudioPlayed s,
                   t_actualAudioPlayed = actualAudioPlayed s,
                   t_delay = real_of_int (currentSamples t) / sr,
                   t_minDelay = minDelay s, t_maxDelay = maxDelay s\<rparr>]"
      and "totalAudioPlayed t = totalAudioPlayed s" and "actualAudioPlayed t = actualAudioPlayed s"
      and "minDelay t = minDelay s" and "maxDelay t = maxDelay s"
      by (subst rec, simp)+
    then show ?thesis using t by simp
  qed
  show ?thesis using r count tick push by blast
qed

theorem telemetry_per_push_witness:
  "\<exists>s. run 24000 [Tick 128, Message (Audio [1 / 2]), Tick 128, Tick 128] (constructor 24000)
          = Some s
     \<and> length (port s) = 1
     \<and> (\<exists>s' out. renderTick 24000 128 s = Some (s', out) \<and> port s' = port s)"
proof -
  have pos: "(0::real) < 24000" by simp
  show ?thesis
    using telemetry_per_push [OF pos,
        of "[Tick 128, Message (Audio [1 / 2]), Tick 128, Tick 128]"]
    by auto
qed

text \<open>
  Claim C4 as stated fails both ways: a render callback without a push posts nothing,
  and two pushes without a render callback post two messages.
\<close>

theorem telemetry_per_tick_counterexample:
  "map_option port (run 24000 [Tick 128] (constructor 24000)) = Some []
   \<and> map_option (length \<circ> port)
        (run 24000 [Message (Audio [1 / 2]), Message (Audio [1 / 4])] (constructor 24000))
      = Some 2"
  by (simp add: constructor_24000 processFrame_def currentSamples_def renderTick_def
        process_def canPlay_def totalMaxBufferSamples_def Let_def)

subsection \<open>Render callbacks of a buffer that is not started\<close>

text \<open>
  Claim C6, as amended. While the buffer is not started and holds fewer than
  \<open>initialBufferSamples\<close> samples, a render callback leaves the zero-filled block as it
  is, leaves \<open>actualAudioPlayed\<close>, \<open>minDelay\<close>, \<open>maxDelay\<close> and the queue unchanged, and
  adds the block's duration to \<open>totalAudioPlayed\<close> only when \<open>actualAudioPlayed\<close> is
  positive, that is once some samples have been played; before that
  \<open>totalAudioPlayed\<close> is unchanged too.
\<close>

theorem empty_state_tick:
  assumes "0 < sr" and "\<not> started s" and "currentSamples s < initialBufferSamples s"
  shows "\<exists>s'. renderTick sr n s = Some (s', replicate n 0)
     \<and> actualAudioPlayed s' = actualAudioPlayed s
     \<and> minDelay s' = minDelay s \<and> maxDelay s' = maxDelay s
     \<and> totalAudioPlayed s' =
          (if 0 < actualAudioPlayed s then totalAudioPlayed s + real n / sr
           else totalAudioPlayed s)
     \<and> remainingPartialBufferSamples s' = remainingPartialBufferSamples s - int n
     \<and> frames s' = frames s \<and> offsetInFirstBuffer s' = offsetInFirstBuffer s
     \<and> started s' = started s"
proof -
  have "\<not> canPlay s" using assms(2) by (simp add: canPlay_def)
  from process_silent [OF this, of sr "replicate n 0"]
  show ?thesis by (simp add: renderTick_def)
qed

theorem empty_state_tick_witness:
  "\<exists>s'. renderTick 24000 128
           (constructor 24000\<lparr>actualAudioPlayed := 1, totalAudioPlayed := 2\<rparr>)
         = Some (s', replicate 128 0)
     \<and> actualAudioPlayed s' = 1
     \<and> totalAudioPlayed s' = 2 + 128 / 24000"
proof -
  have pos: "(0::real) < 24000" by simp
  have ns: "\<not> started (constructor 24000\<lparr>actualAudioPlayed := 1, totalAudioPlayed := 2\<rparr>)"
    by (simp add: constructor_24000)
  have few: "currentSamples (constructor 24000\<lparr>actualAudioPlayed := 1, totalAudioPlayed := 2\<rparr>)
             < initialBufferSamples (constructor 24000\<lparr>actualAudioPlayed := 1, totalAudioPlayed := 2\<rparr>)"
    by (simp add: constructor_24000 currentSamples_def)
  show ?thesis
    using empty_state_tick [OF pos ns few, of 128]
    by (auto simp: constructor_24000)
qed

text \<open>
  Claim C6 as stated fails on a new processor: its first render callback leaves
  \<open>totalAudioPlayed\<close> at 0 instead of adding the block's duration \<open>128 / 24000\<close>.
\<close>

theorem fresh_tick_counterexample:
  "\<not> started (constructor 24000)
   \<and> currentSamples (constructor 24000) < initialBufferSamples (constructor 24000)
   \<and> totalAudioPlayed (constructor 24000) = 0
   \<and> map_option (totalAudioPlayed \<circ> fst) (renderTick 24000 128 (constructor 24000))
       = Some 0
   \<and> map_option snd (renderTick 24000 128 (constructor 24000)) = Some (replicate 128 0)"
  by (simp add: constructor_24000 currentSamples_def renderTick_def process_def
        canPlay_def Let_def)

subsection \<open>Where playback starts\<close>









subsection \<open>The overflow policy\<close>

lemma renderTick_caps:
  assumes wf: "well_formed sr s" and r: "renderTick sr n s = Some (s', out)"
  shows "maxBufferSamples s' = maxBufferSamples s"
    and "maxMaxBufferWithIncrements s' = maxMaxBufferWithIncrements s"
proof -
  have "maxBufferSamples s' = maxBufferSamples s
      \<and> maxMaxBufferWithIncrements s' = maxMaxBufferWithIncrements s"
  proof (cases "canPlay s")
    case False
    then show ?thesis
      using r process_silent [OF False, of sr "replicate n 0"]
      by (auto simp: renderTick_def)
  next
    case True
    have ok: "queue_ok s" using wf by (simp add: well_formed_def)
    define k where "k = min n (length (queued s))"
    define underrun where "underrun = (k < n \<and> \<not> list_ex audible (take k (queued s)))"
    define raw where "raw = take k (queued s) @ replicate (n - k) 0"
    define pre where "pre = (if firstOut s then fade_in (int k) raw else raw)"
    define delay where "delay = real_of_int (currentSamples s) / sr"
    obtain t where rt: "renderTick sr n s = Some (t, if underrun then fade_out (int k) pre else pre)"
      and rec: "t = s\<lparr>maxDelay := max (maxDelay s) delay, minDelay := min (minDelay s) delay,
                frames := frames t, offsetInFirstBuffer := offsetInFirstBuffer t,
                firstOut := False,
                partialBufferSamples :=
                  (if underrun
                   then min (partialBufferSamples s + partialBufferIncrement s)
                            (maxPartialWithIncrements s)
                   else partialBufferSamples s),
                started := \<not> underrun,
                totalAudioPlayed := totalAudioPlayed s + real n / sr,
                actualAudioPlayed := actualAudioPlayed s + real k / sr,
                timeInStream := timeInStream s + real k / sr\<rparr>"
      using process_play [OF ok True, of sr n]
      unfolding k_def [symmetric] underrun_def [symmetric] raw_def [symmetric]
        pre_def [symmetric] delay_def [symmetric]
      by blast
    have ts: "t = s'" using r rt by simp
    have "maxBufferSamples t = maxBufferSamples s"
      "maxMaxBufferWithIncrements t = maxMaxBufferWithIncrements s"
      by (subst rec, simp)+
    then show ?thesis using ts by simp
  qed
  then show "maxBufferSamples s' = maxBufferSamples s"
    and "maxMaxBufferWithIncrements s' = maxMaxBufferWithIncrements s" by simp_all
qed

lemma step_cap_inv:
  assumes sr: "0 \<le> sr" and wf: "well_formed sr s" and st: "step sr e s = Some s'"
    and j: "maxMaxBufferWithIncrements s \<le> maxBufferSamples s
          \<and> maxMaxBufferWithIncrements s \<le> asSamples sr DEFAULT_MAX_BUFFER_MS"
  shows "maxMaxBufferWithIncrements s' \<le> maxBufferSamples s'
       \<and> maxMaxBufferWithIncrements s' \<le> asSamples sr DEFAULT_MAX_BUFFER_MS"
proof (cases e)
  case (Message m)
  show ?thesis
  proof (cases m)
    case Reset
    then show ?thesis using Message st j
      by (auto simp: initState_def resetStart_def Let_def)
  next
    case (Audio f)
    obtain t where t: "onmessage sr (Audio f) s = Some t"
      and rec: "t = s\<lparr>frames := frames t, offsetInFirstBuffer := offsetInFirstBuffer t,
               timeInStream := timeInStream t,
               started := (started s \<or> initialBufferSamples s \<le> currentSamples s + int (length f)),
               remainingPartialBufferSamples :=
                 (if initialBufferSamples s \<le> currentSamples s + int (length f) \<and> \<not> started s
                  then partialBufferSamples s else remainingPartialBufferSamples s),
               firstOut := ((initialBufferSamples s \<le> currentSamples s + int (length f) \<and> \<not> started s)
                            \<or> firstOut s),
               pidx := (if pidx s < 20 then pidx s + 1 else pidx s),
               maxBufferSamples :=
                 (if overflows f s then min (maxMaxBufferWithIncrements s)
                                   (maxBufferSamples s + maxBufferSamplesIncrement s)
                  else maxBufferSamples s),
               port := port s @
                 [\<lparr>t_totalAudioPlayed = totalAudioPlayed s,
                   t_actualAudioPlayed = actualAudioPlayed s,
                   t_delay = real_of_int (currentSamples t) / sr,
                   t_minDelay = minDelay s, t_maxDelay = maxDelay s\<rparr>]\<rparr>"
      using onmessage_audio_spec [OF wf, of f] by blast
    have ts: "t = s'" using t st Message Audio by simp
    have f: "maxBufferSamples t =
               (if overflows f s then min (maxMaxBufferWithIncrements s)
                                   (maxBufferSamples s + maxBufferSamplesIncrement s)
                else maxBufferSamples s)"
      "maxMaxBufferWithIncrements t = maxMaxBufferWithIncrements s"
      by (subst rec, simp)+
    have "0 \<le> maxBufferSamplesIncrement s" using wf by (simp add: well_formed_def)
    then show ?thesis using f j ts by auto
  next
    case Other_message
    then show ?thesis using Message st j by auto
  qed
next
  case (Tick n)
  then obtain out where "renderTick sr n s = Some (s', out)"
    using st by auto
  then show ?thesis using renderTick_caps [OF wf] j by simp
qed

lemma run_cap_inv:
  assumes sr: "0 \<le> sr"
  shows "well_formed sr s \<Longrightarrow> run sr es s = Some s' \<Longrightarrow>
     maxMaxBufferWithIncrements s \<le> maxBufferSamples s
       \<and> maxMaxBufferWithIncrements s \<le> asSamples sr DEFAULT_MAX_BUFFER_MS \<Longrightarrow>
     maxMaxBufferWithIncrements s' \<le> maxBufferSamples s'
       \<and> maxMaxBufferWithIncrements s' \<le> asSamples sr DEFAULT_MAX_BUFFER_MS"
proof (induction es arbitrary: s)
  case Nil
  then show ?case by simp
next
  case (Cons e es)
  obtain s1 where s1: "step sr e s = Some s1" and wf1: "well_formed sr s1"
    using step_well_formed [OF sr Cons.prems(1)] by blast
  have r1: "run sr es s1 = Some s'" using Cons.prems(2) s1 by simp
  show ?case
    using Cons.IH [OF wf1 r1 step_cap_inv [OF sr Cons.prems(1) s1 Cons.prems(3)]] .
qed

lemma reachable_cap_below_max:
  assumes "0 \<le> sr" and "run sr es (constructor sr) = Some s"
  shows "maxMaxBufferWithIncrements s \<le> maxBufferSamples s"
proof -
  have "maxMaxBufferWithIncrements (constructor sr) \<le> maxBufferSamples (constructor sr)
      \<and> maxMaxBufferWithIncrements (constructor sr) \<le> asSamples sr DEFAULT_MAX_BUFFER_MS"
    using asSamples_mono [OF assms(1), of 6000 DEFAULT_MAX_BUFFER_MS]
    by (simp add: constructor_def initState_def resetStart_def Let_def DEFAULT_MAX_BUFFER_MS_def)
  then show ?thesis
    using run_cap_inv [OF assms(1) well_formed_constructor [OF assms(1)] assms(2)] by simp
qed

text \<open>
  Claim C2. In every state reachable from a new processor, when a pushed frame meets
  the test of the overflow policy, the push drops the oldest queued samples so that
  exactly \<open>initialBufferSamples + partialBufferSamples\<close> samples remain (the newest
  ones, in order), and sets \<open>maxBufferSamples\<close> to the minimum of its cap and its old
  value plus the increment. The claim adds that \<open>maxBufferSamples\<close> has then
  increased; the code does not do that. The cap is 6 s of samples and the value set by
  the constructor and by every reset is 5 min of samples, so in every reachable state
  the cap is at most the value: the push sets \<open>maxBufferSamples\<close> to the cap, never
  above its old value, and the threshold of the policy never grows.
\<close>

theorem overflow_never_raises_max:
  assumes "0 < sr" and "run sr es (constructor sr) = Some s" and "overflows f s"
  shows "\<exists>s'. onmessage sr (Audio f) s = Some s'
     \<and> currentSamples s' = initialBufferSamples s' + partialBufferSamples s'
     \<and> initialBufferSamples s' = initialBufferSamples s
     \<and> partialBufferSamples s' = partialBufferSamples s
     \<and> queued s' =
         drop (length (queued s @ f) - nat (initialBufferSamples s + partialBufferSamples s))
              (queued s @ f)
     \<and> maxBufferSamples s' =
         min (maxMaxBufferWithIncrements s)
             (maxBufferSamples s + maxBufferSamplesIncrement s)
     \<and> maxBufferSamples s' = maxMaxBufferWithIncrements s
     \<and> maxBufferSamples s' \<le> maxBufferSamples s
     \<and> totalMaxBufferSamples s' \<le> totalMaxBufferSamples s"
proof -
  have sr: "0 \<le> sr" using assms(1) by simp
  have wf: "well_formed sr s"
    using reachable_well_formed [OF sr, of es] assms(2) by auto
  have ok: "queue_ok s" using wf by (simp add: well_formed_def)
  have cap: "maxMaxBufferWithIncrements s \<le> maxBufferSamples s"
    using reachable_cap_below_max [OF sr assms(2)] .
  have inc: "0 \<le> maxBufferSamplesIncrement s" using wf by (simp add: well_formed_def)
  define cur where "cur = currentSamples s + int (length f)"
  define target where "target = initialBufferSamples s + partialBufferSamples s"
  obtain t where t: "onmessage sr (Audio f) s = Some t" and wft: "well_formed sr t"
    and q: "queued t = drop (nat (cur - target)) (queued s @ f)"
    and rec: "t = s\<lparr>frames := frames t, offsetInFirstBuffer := offsetInFirstBuffer t,
               timeInStream := timeInStream t,
               started := (started s \<or> initialBufferSamples s \<le> cur),
               remainingPartialBufferSamples :=
                 (if initialBufferSamples s \<le> cur \<and> \<not> started s
                  then partialBufferSamples s else remainingPartialBufferSamples s),
               firstOut := ((initialBufferSamples s \<le> cur \<and> \<not> started s) \<or> firstOut s),
               pidx := (if pidx s < 20 then pidx s + 1 else pidx s),
               maxBufferSamples :=
                 (if overflows f s then min (maxMaxBufferWithIncrements s)
                                   (maxBufferSamples s + maxBufferSamplesIncrement s)
                  else maxBufferSamples s),
               port := port s @
                 [\<lparr>t_totalAudioPlayed = totalAudioPlayed s,
                   t_actualAudioPlayed = actualAudioPlayed s,
                   t_delay = real_of_int (currentSamples t) / sr,
                   t_minDelay = minDelay s, t_maxDelay = maxDelay s\<rparr>]\<rparr>"
    using onmessage_audio_spec [OF wf, of f] assms(3)
    unfolding cur_def [symmetric] target_def [symmetric] by auto
  have f: "initialBufferSamples t = initialBufferSamples s"
    "partialBufferSamples t = partialBufferSamples s"
    "maxBufferSamples t = min (maxMaxBufferWithIncrements s)
             (maxBufferSamples s + maxBufferSamplesIncrement s)"
    using assms(3) by (subst rec, simp)+
  have m: "maxBufferSamples t = maxMaxBufferWithIncrements s"
    using f(3) cap inc by simp
  have le: "maxBufferSamples t \<le> maxBufferSamples s"
    using m cap by simp
  have tot: "totalMaxBufferSamples t \<le> totalMaxBufferSamples s"
    using le f(1,2) by (simp add: totalMaxBufferSamples_def)
  have curq: "cur = int (length (queued s @ f))"
    using currentSamples_queued [OF ok] by (simp add: cur_def)
  have tpos: "0 \<le> target" using wf by (simp add: well_formed_def target_def)
  have "totalMaxBufferSamples s \<le> cur"
    using assms(3)
    by (simp add: overflows_def Let_def cur_def currentSamples_push totalMaxBufferSamples_def)
  then have ge: "target \<le> cur"
    using wf by (simp add: well_formed_def target_def totalMaxBufferSamples_def)
  have d: "nat (cur - target) = length (queued s @ f) - nat target"
    using curq tpos ge by linarith
  have okt: "queue_ok t" using wft by (simp add: well_formed_def)
  have "currentSamples t = int (length (queued t))"
    using currentSamples_queued [OF okt] .
  also have "\<dots> = int (length (queued s @ f) - (length (queued s @ f) - nat target))"
    by (simp only: q d length_drop)
  also have "\<dots> = target" using curq tpos ge by linarith
  finally have "currentSamples t = initialBufferSamples t + partialBufferSamples t"
    by (simp add: target_def f)
  moreover have "queued t = drop (length (queued s @ f) - nat target) (queued s @ f)"
    using q d by simp
  ultimately show ?thesis using t f m le tot by (simp add: target_def)
qed

theorem overflow_never_raises_max_witness:
  "maxBufferSamples (constructor 24000) = 7200000
   \<and> totalMaxBufferSamples (constructor 24000) = 7202160
   \<and> (\<exists>s'. onmessage 24000 (Audio (replicate 7202160 (1 / 2))) (constructor 24000) = Some s'
          \<and> currentSamples s' = 2160
          \<and> queued s' = replicate 2160 (1 / 2)
          \<and> maxBufferSamples s' = 144000
          \<and> totalMaxBufferSamples s' = 146160)"
proof -
  have pos: "(0::real) < 24000" by simp
  have r: "run 24000 [] (constructor 24000) = Some (constructor 24000)" by simp
  have ov: "overflows (replicate 7202160 (1 / 2)) (constructor 24000)"
    by (simp add: overflows_def constructor_24000 currentSamples_def
          totalMaxBufferSamples_def Let_def)
  have a: "maxBufferSamples (constructor 24000) = 7200000"
    "totalMaxBufferSamples (constructor 24000) = 7202160"
    by (simp_all add: constructor_24000 totalMaxBufferSamples_def)
  obtain s' where s': "onmessage 24000 (Audio (replicate 7202160 (1 / 2))) (constructor 24000) = Some s'"
    "currentSamples s' = initialBufferSamples s' + partialBufferSamples s'"
    "initialBufferSamples s' = initialBufferSamples (constructor 24000)"
    "partialBufferSamples s' = partialBufferSamples (constructor 24000)"
    "queued s' =
         drop (length (queued (constructor 24000) @ replicate 7202160 (1 / 2))
                 - nat (initialBufferSamples (constructor 24000)
                        + partialBufferSamples (constructor 24000)))
              (queued (constructor 24000) @ replicate 7202160 (1 / 2))"
    "maxBufferSamples s' = maxMaxBufferWithIncrements (constructor 24000)"
    using overflow_never_raises_max [OF pos r ov] by blast
  have "currentSamples s' = 2160" using s'(2,3,4) by (simp add: constructor_24000)
  moreover have "queued s' = replicate 2160 (1 / 2)"
    using s'(5) by (simp add: constructor_24000 queued_def)
  moreover have "maxBufferSamples s' = 144000" using s'(6) by (simp add: constructor_24000)
  moreover have "totalMaxBufferSamples s' = 146160"
    using s'(3,4,6) by (simp add: constructor_24000 totalMaxBufferSamples_def)
  ultimately show ?thesis using a s'(1) by blast
qed


subsection \<open>No sample is dropped below the bound\<close>

lemma renderTick_consumes:
  assumes wf: "well_formed sr s" and sr: "0 < sr"
  shows "\<exists>s' out k. renderTick sr n s = Some (s', out) \<and> well_formed sr s'
     \<and> k \<le> length (queued s) \<and> queued s' = drop k (queued s)
     \<and> actualAudioPlayed s' = actualAudioPlayed s + real k / sr
     \<and> timeInStream s' = timeInStream s + real k / sr"
proof (cases "canPlay s")
  case False
  define s1 where "s1 = s\<lparr>totalAudioPlayed :=
                      (if actualAudioPlayed s > 0
                       then totalAudioPlayed s + real n / sr
                       else totalAudioPlayed s),
                    remainingPartialBufferSamples :=
                      remainingPartialBufferSamples s - int n\<rparr>"
  have "renderTick sr n s = Some (s1, replicate n 0)"
    using process_silent [OF False, of sr "replicate n 0"] by (simp add: renderTick_def s1_def)
  moreover have "well_formed sr s1"
    using wf by (simp add: well_formed_def queue_ok_def s1_def)
  moreover have "queued s1 = drop 0 (queued s)" by (simp add: queued_def s1_def)
  moreover have "actualAudioPlayed s1 = actualAudioPlayed s + real (0::nat) / sr"
    "timeInStream s1 = timeInStream s + real (0::nat) / sr"
    by (simp_all add: s1_def)
  moreover have "(0::nat) \<le> length (queued s)" by simp
  ultimately show ?thesis by blast
next
  case True
  have ok: "queue_ok s" using wf by (simp add: well_formed_def)
  define k where "k = min n (length (queued s))"
  define underrun where "underrun = (k < n \<and> \<not> list_ex audible (take k (queued s)))"
  define raw where "raw = take k (queued s) @ replicate (n - k) 0"
  define pre where "pre = (if firstOut s then fade_in (int k) raw else raw)"
  define delay where "delay = real_of_int (currentSamples s) / sr"
  obtain t where rt: "renderTick sr n s = Some (t, if underrun then fade_out (int k) pre else pre)"
    and q: "queued t = drop k (queued s)"
    and rec: "t = s\<lparr>maxDelay := max (maxDelay s) delay, minDelay := min (minDelay s) delay,
                frames := frames t, offsetInFirstBuffer := offsetInFirstBuffer t,
                firstOut := False,
                partialBufferSamples :=
                  (if underrun
                   then min (partialBufferSamples s + partialBufferIncrement s)
                            (maxPartialWithIncrements s)
                   else partialBufferSamples s),
                started := \<not> underrun,
                totalAudioPlayed := totalAudioPlayed s + real n / sr,
                actualAudioPlayed := actualAudioPlayed s + real k / sr,
                timeInStream := timeInStream s + real k / sr\<rparr>"
    using process_play [OF ok True, of sr n]
    unfolding k_def [symmetric] underrun_def [symmetric] raw_def [symmetric]
      pre_def [symmetric] delay_def [symmetric]
    by blast
  have f: "actualAudioPlayed t = actualAudioPlayed s + real k / sr"
    "timeInStream t = timeInStream s + real k / sr"
    by (subst rec, simp)+
  have "well_formed sr t"
    using renderTick_well_formed [OF wf, of n] rt by auto
  moreover have "k \<le> length (queued s)" by (simp add: k_def)
  ultimately show ?thesis using rt q f by blast
qed

lemma budget_run:
  assumes sr: "0 < sr"
  shows "well_formed sr s \<Longrightarrow> within_budget sr (length P) es s \<Longrightarrow>
     queued s = drop k P \<Longrightarrow> k \<le> length P \<Longrightarrow>
     real k = actualAudioPlayed s * sr \<Longrightarrow> timeInStream s = actualAudioPlayed s \<Longrightarrow>
     overflow_free sr es s \<and>
     (\<exists>s' k'. run sr es s = Some s' \<and> queued s' = drop k' (P @ pushed es)
        \<and> k' \<le> length (P @ pushed es)
        \<and> real k' = actualAudioPlayed s' * sr
        \<and> timeInStream s' = actualAudioPlayed s')"
proof (induction es arbitrary: s P k)
  case Nil
  then show ?case by auto
next
  case (Cons e es)
  have ok: "queue_ok s" using Cons.prems(1) by (simp add: well_formed_def)
  have cur: "currentSamples s = int (length P - k)"
    using currentSamples_queued [OF ok] Cons.prems(3) by simp
  show ?case
  proof (cases e)
    case (Message m)
    show ?thesis
    proof (cases m)
      case Reset
      then show ?thesis using Message Cons.prems(2) by simp
    next
      case Other_message
      then have st: "step sr e s = Some s" and pe: "pushed (e # es) = pushed es"
        using Message by simp_all
      have "within_budget sr (length P) es s"
        using Cons.prems(2) Message Other_message by simp
      from Cons.IH [OF Cons.prems(1) this Cons.prems(3-6)]
      show ?thesis using st pe Message Other_message by simp
    next
      case (Audio f)
      have bud: "int (length P + length f) < totalMaxBufferSamples s"
        using Cons.prems(2) Message Audio by simp
      have nov: "\<not> overflows f s"
        using bud cur
        by (simp add: overflows_def Let_def currentSamples_push totalMaxBufferSamples_def)
      obtain t where t: "onmessage sr (Audio f) s = Some t" and wft: "well_formed sr t"
        and q: "queued t = queued s @ f"
        and same: "timeInStream t = timeInStream s"
        and rec: "t = s\<lparr>frames := frames t, offsetInFirstBuffer := offsetInFirstBuffer t,
               timeInStream := timeInStream t,
               started := (started s \<or> initialBufferSamples s \<le> currentSamples s + int (length f)),
               remainingPartialBufferSamples :=
                 (if initialBufferSamples s \<le> currentSamples s + int (length f) \<and> \<not> started s
                  then partialBufferSamples s else remainingPartialBufferSamples s),
               firstOut := ((initialBufferSamples s \<le> currentSamples s + int (length f) \<and> \<not> started s)
                            \<or> firstOut s),
               pidx := (if pidx s < 20 then pidx s + 1 else pidx s),
               maxBufferSamples :=
                 (if overflows f s then min (maxMaxBufferWithIncrements s)
                                   (maxBufferSamples s + maxBufferSamplesIncrement s)
                  else maxBufferSamples s),
               port := port s @
                 [\<lparr>t_totalAudioPlayed = totalAudioPlayed s,
                   t_actualAudioPlayed = actualAudioPlayed s,
                   t_delay = real_of_int (currentSamples t) / sr,
                   t_minDelay = minDelay s, t_maxDelay = maxDelay s\<rparr>]\<rparr>"
        using onmessage_audio_spec [OF Cons.prems(1), of f] nov by auto
      have act: "actualAudioPlayed t = actualAudioPlayed s"
        by (subst rec) simp
      have st: "step sr e s = Some t" using t Message Audio by simp
      have wb: "within_budget sr (length (P @ f)) es t"
        using Cons.prems(2) Message Audio t by simp
      have qt: "queued t = drop k (P @ f)"
        using q Cons.prems(3,4) by simp
      have kt: "k \<le> length (P @ f)" using Cons.prems(4) by simp
      have "overflow_free sr es t \<and>
        (\<exists>s' k'. run sr es t = Some s' \<and> queued s' = drop k' ((P @ f) @ pushed es)
          \<and> k' \<le> length ((P @ f) @ pushed es)
          \<and> real k' = actualAudioPlayed s' * sr
          \<and> timeInStream s' = actualAudioPlayed s')"
        using Cons.IH [OF wft wb qt kt] Cons.prems(5,6) act same by simp
      then show ?thesis using st nov Message Audio by simp
    qed
  next
    case (Tick n)
    obtain t out j where rt: "renderTick sr n s = Some (t, out)" and wft: "well_formed sr t"
      and j: "j \<le> length (queued s)" and q: "queued t = drop j (queued s)"
      and act: "actualAudioPlayed t = actualAudioPlayed s + real j / sr"
      and tis: "timeInStream t = timeInStream s + real j / sr"
      using renderTick_consumes [OF Cons.prems(1) sr, of n] by blast
    have st: "step sr e s = Some t" using rt Tick by simp
    have wb: "within_budget sr (length P) es t"
      using Cons.prems(2) Tick rt by simp
    have qt: "queued t = drop (k + j) P"
      using q Cons.prems(3) by (simp add: add.commute)
    have kt: "k + j \<le> length P" using j Cons.prems(3,4) by simp
    have rk: "real (k + j) = actualAudioPlayed t * sr"
      using act Cons.prems(5) sr by (simp add: distrib_right)
    have tt: "timeInStream t = actualAudioPlayed t"
      using act tis Cons.prems(6) by simp
    have ce: "(case e of Message (Audio frame) \<Rightarrow> \<not> overflows frame s | _ \<Rightarrow> True)"
      using Tick by simp
    have pe: "pushed (e # es) = pushed es" using Tick by simp
    from Cons.IH [OF wft wb qt kt rk tt]
    show ?thesis unfolding pe using st ce by simp
  qed
qed

lemma initState_fresh:
  "frames (initState sr s) = []" "offsetInFirstBuffer (initState sr s) = 0"
  "actualAudioPlayed (initState sr s) = 0" "timeInStream (initState sr s) = 0"
  by (simp_all add: initState_def resetStart_def Let_def)

lemma initState_constructor: "initState sr (constructor sr) = constructor sr"
  by (simp add: constructor_def initState_def resetStart_def Let_def)

text \<open>
  Claim C5, as amended. Start from a processor that was just reset (a new processor is
  one: \<open>initState\<close> leaves it as it is). For every sequence of pushes and render
  callbacks in which, at every push, the samples pushed so far, the new frame included,
  stay strictly below \<open>initialBufferSamples + partialBufferSamples + maxBufferSamples\<close>,
  no push meets the test of the overflow policy and no sample is dropped: the queue
  holds exactly the pushed samples except the first \<open>k\<close>, where \<open>k\<close> is the number of
  samples the render callbacks have played (\<open>actualAudioPlayed\<close> in samples), and
  \<open>timeInStream\<close>, which counts played and dropped samples, equals
  \<open>actualAudioPlayed\<close>.
\<close>

theorem no_drop_within_budget:
  assumes "0 < sr" and "run sr pre (constructor sr) = Some t"
    and "within_budget sr 0 es (initState sr t)"
  shows "overflow_free sr es (initState sr t) \<and>
     (\<exists>s k. run sr es (initState sr t) = Some s
        \<and> k \<le> length (pushed es) \<and> queued s = drop k (pushed es)
        \<and> real k = actualAudioPlayed s * sr
        \<and> timeInStream s = actualAudioPlayed s)"
proof -
  have sr: "0 \<le> sr" using assms(1) by simp
  have "well_formed sr t"
    using reachable_well_formed [OF sr, of pre] assms(2) by auto
  then have wf: "well_formed sr (initState sr t)"
    using well_formed_initState [OF sr] by simp
  have q: "queued (initState sr t) = drop 0 []"
    by (simp add: queued_def initState_fresh)
  have wb: "within_budget sr (length ([] :: sample list)) es (initState sr t)"
    using assms(3) by simp
  from budget_run [OF assms(1) wf wb q]
  show ?thesis by (auto simp: initState_fresh)
qed

theorem no_drop_within_budget_witness:
  "overflow_free 24000
     [Message (Audio (replicate 1000 (1 / 2))), Tick 128, Message (Audio (replicate 500 (1 / 4)))]
     (constructor 24000)
   \<and> (\<exists>s k. run 24000
         [Message (Audio (replicate 1000 (1 / 2))), Tick 128,
          Message (Audio (replicate 500 (1 / 4)))] (constructor 24000) = Some s
        \<and> queued s = drop k (replicate 1000 (1 / 2) @ replicate 500 (1 / 4))
        \<and> real k = actualAudioPlayed s * 24000)"
proof -
  have pos: "(0::real) < 24000" by simp
  have r: "run 24000 [] (constructor 24000) = Some (constructor 24000)" by simp
  have wb: "within_budget 24000 0
     [Message (Audio (replicate 1000 (1 / 2))), Tick 128, Message (Audio (replicate 500 (1 / 4)))]
     (initState 24000 (constructor 24000))"
    by (simp add: initState_constructor)
       (simp add: constructor_24000 processFrame_def currentSamples_def renderTick_def
          process_def canPlay_def totalMaxBufferSamples_def Let_def)
  show ?thesis
    using no_drop_within_budget [OF pos r wb]
    by (simp add: initState_constructor) blast
qed

text \<open>
  Claim C5 as stated fails at the bound itself: one frame of exactly
  \<open>initialBufferSamples + partialBufferSamples + maxBufferSamples\<close> samples does not
  exceed the bound, yet the push meets the test (\<open>>=\<close>) and drops all but 2160 of its
  7202160 samples.
\<close>

theorem budget_boundary_counterexample:
  "totalMaxBufferSamples (constructor 24000) = 7202160
   \<and> overflows (replicate 7202160 (1 / 2)) (constructor 24000)
   \<and> map_option currentSamples
        (run 24000 [Message (Audio (replicate 7202160 (1 / 2)))] (constructor 24000))
      = Some 2160"
  by (simp add: constructor_24000 overflows_def processFrame_def currentSamples_def
        totalMaxBufferSamples_def start_def Let_def drop_oldest.simps drop_oldest_body_def)

subsection \<open>The underrun adaptation\<close>

lemma fade_out_nth:
  assumes "i < k" and "k \<le> length xs"
  shows "fade_out (int k) xs ! i = xs ! i * (real (k - i) / real k)"
proof -
  have "i < length xs" using assms by simp
  then have a: "fade_out (int k) xs ! i =
               xs ! i * (real_of_int (int k - int i) / real_of_int (int k))"
    using assms(1) by (simp add: fade_out_def ramp_nth)
  have b: "real_of_int (int k - int i) = real (k - i)"
    using of_nat_diff [of i k, where ?'a = real] assms(1) by simp
  have c: "real_of_int (int k) = real k" by simp
  show ?thesis by (simp only: a b c)
qed

lemma fade_out_tail:
  assumes "k \<le> i" and "i < length xs"
  shows "fade_out (int k) xs ! i = xs ! i"
  using assms by (simp add: fade_out_def ramp_nth)

lemma fade_out_length: "length (fade_out j xs) = length xs"
  by (simp add: fade_out_def ramp_length)

text \<open>
  Claim C1, as amended. When the buffer can play and the queue holds fewer samples than
  the block, the render callback copies them all, noting whether any copied sample is
  above \<open>1e-4\<close> in magnitude, and applies the fade-in if this is the first output
  since a start. If no copied sample was above the threshold, it applies the fade-out
  ramp (sample \<open>i\<close> of the \<open>k\<close> copied ones is multiplied by \<open>(k - i) / k\<close>), sets
  \<open>started\<close> to false and grows \<open>partialBufferSamples\<close> by the increment, capped.
  If some copied sample was above the threshold, it does none of the three: the block is
  left as copied (and faded in), \<open>started\<close> stays true and \<open>partialBufferSamples\<close>
  is unchanged.
\<close>

theorem underrun_adaptation:
  assumes "queue_ok s" and "canPlay s" and "length (queued s) < n"
  shows "let k = length (queued s);
             raw = queued s @ replicate (n - k) 0;
             pre = (if firstOut s then fade_in (int k) raw else raw)
         in \<exists>s' out. renderTick sr n s = Some (s', out) \<and> length out = n \<and> queued s' = []
              \<and> (if list_ex audible (queued s)
                  then out = pre \<and> started s' \<and>
                       partialBufferSamples s' = partialBufferSamples s
                  else (\<forall>i < k. out ! i = pre ! i * (real (k - i) / real k)) \<and>
                       (\<forall>i. k \<le> i \<and> i < n \<longrightarrow> out ! i = 0) \<and>
                       \<not> started s' \<and>
                       partialBufferSamples s' =
                         min (partialBufferSamples s + partialBufferIncrement s)
                             (maxPartialWithIncrements s))"
proof -
  define k where "k = length (queued s)"
  define raw where "raw = queued s @ replicate (n - k) 0"
  define pre where "pre = (if firstOut s then fade_in (int k) raw else raw)"
  obtain t where rt: "renderTick sr n s =
              Some (t, if list_ex audible (queued s) then pre else fade_out (int k) pre)"
    and qt: "queued t = []" and st: "started t = list_ex audible (queued s)"
    and pt: "partialBufferSamples t =
         (if list_ex audible (queued s) then partialBufferSamples s
          else min (partialBufferSamples s + partialBufferIncrement s)
                   (maxPartialWithIncrements s))"
    and lpre: "length pre = n" and tl: "\<forall>i. k \<le> i \<and> i < n \<longrightarrow> pre ! i = 0"
    using underrun_common [OF assms, of sr]
    unfolding k_def [symmetric] raw_def [symmetric] pre_def [symmetric] by blast
  have kn: "k \<le> length pre" using assms(3) lpre by (simp add: k_def)
  have core: "\<exists>s' out. renderTick sr n s = Some (s', out) \<and> length out = n \<and> queued s' = []
              \<and> (if list_ex audible (queued s)
                  then out = pre \<and> started s' \<and>
                       partialBufferSamples s' = partialBufferSamples s
                  else (\<forall>i < k. out ! i = pre ! i * (real (k - i) / real k)) \<and>
                       (\<forall>i. k \<le> i \<and> i < n \<longrightarrow> out ! i = 0) \<and>
                       \<not> started s' \<and>
                       partialBufferSamples s' =
                         min (partialBufferSamples s + partialBufferIncrement s)
                             (maxPartialWithIncrements s))"
  proof (cases "list_ex audible (queued s)")
    case True
    have "renderTick sr n s = Some (t, pre) \<and> length pre = n \<and> queued t = []
        \<and> pre = pre \<and> started t \<and> partialBufferSamples t = partialBufferSamples s"
      using rt qt st pt lpre True by simp
    then show ?thesis unfolding if_P [OF True]
      by (intro exI [of _ t] exI [of _ pre])
  next
    case False
    have head: "\<forall>i < k. fade_out (int k) pre ! i = pre ! i * (real (k - i) / real k)"
      using fade_out_nth [OF _ kn] by blast
    have tail: "\<forall>i. k \<le> i \<and> i < n \<longrightarrow> fade_out (int k) pre ! i = 0"
    proof (intro allI impI)
      fix i assume i: "k \<le> i \<and> i < n"
      then have "fade_out (int k) pre ! i = pre ! i"
        using fade_out_tail [of k i pre] lpre by simp
      then show "fade_out (int k) pre ! i = 0" using tl i by simp
    qed
    have a: "renderTick sr n s = Some (t, fade_out (int k) pre)" using rt False by simp
    have b: "length (fade_out (int k) pre) = n" using lpre by (simp add: fade_out_length)
    have c: "\<not> started t" using st False by simp
    have d: "partialBufferSamples t = min (partialBufferSamples s + partialBufferIncrement s)
                             (maxPartialWithIncrements s)"
      using pt False by simp
    show ?thesis unfolding if_not_P [OF False]
      using a b qt head tail c d
      by (intro exI [of _ t] exI [of _ "fade_out (int k) pre"] conjI)
  qed
  show ?thesis
    unfolding Let_def using core unfolding pre_def raw_def k_def .
qed

theorem underrun_adaptation_witness:
  "\<exists>s' out. renderTick 24000 128
        (constructor 24000\<lparr>frames := [[1 / 20000, 1 / 40000]], started := True\<rparr>)
       = Some (s', out)
     \<and> length out = 128 \<and> queued s' = []
     \<and> out ! 0 = 1 / 20000 \<and> out ! 1 = 1 / 80000 \<and> out ! 2 = 0
     \<and> started s' = False \<and> partialBufferSamples s' = 12240"
proof -
  define s where "s = constructor 24000\<lparr>frames := [[1 / 20000, 1 / 40000]], started := True\<rparr>"
  have ok: "queue_ok s" by (simp add: s_def queue_ok_def constructor_24000)
  have cp: "canPlay s" by (simp add: s_def canPlay_def constructor_24000)
  have q: "queued s = [1 / 20000, 1 / 40000]" by (simp add: s_def queued_def constructor_24000)
  have len: "length (queued s) < 128" by (simp add: q)
  have na: "list_ex audible (queued s) = False" by (simp add: q audible_def)
  have fo: "firstOut s = False" by (simp add: s_def constructor_24000)
  have p: "partialBufferSamples s = 240" "partialBufferIncrement s = 12000"
    "maxPartialWithIncrements s = 144000"
    by (simp_all add: s_def constructor_24000)
  obtain s' out where rt: "renderTick 24000 128 s = Some (s', out)"
    and l: "length out = 128" and qe: "queued s' = []"
    and h: "\<forall>i < length (queued s).
              out ! i = (queued s @ replicate (128 - length (queued s)) 0) ! i *
                        (real (length (queued s) - i) / real (length (queued s)))"
    and tl: "\<forall>i. length (queued s) \<le> i \<and> i < 128 \<longrightarrow> out ! i = 0"
    and st: "\<not> started s'"
    and pa: "partialBufferSamples s' =
               min (partialBufferSamples s + partialBufferIncrement s)
                   (maxPartialWithIncrements s)"
    using underrun_adaptation [OF ok cp len, of 24000]
    unfolding Let_def na fo if_False by blast
  have "out ! 0 = 1 / 20000" using h [rule_format, of 0] by (simp add: q)
  moreover have "out ! 1 = 1 / 80000" using h [rule_format, of 1] by (simp add: q)
  moreover have "out ! 2 = 0" using tl [rule_format, of 2] by (simp add: q)
  moreover have "partialBufferSamples s' = 12240" using pa by (simp add: p)
  ultimately show ?thesis using rt l qe st unfolding s_def by blast
qed

text \<open>
  Claim C1 as stated fails when a copied sample is audible: two queued samples of
  \<open>1/2\<close> on a started processor underrun the block of 128, and the render callback
  leaves them as they are (no ramp), leaves \<open>started\<close> true and
  \<open>partialBufferSamples\<close> at 240.
\<close>

theorem audible_underrun_counterexample:
  "canPlay (constructor 24000\<lparr>frames := [[1 / 2, 1 / 2]], started := True\<rparr>)
   \<and> map_option (started \<circ> fst)
        (renderTick 24000 128
           (constructor 24000\<lparr>frames := [[1 / 2, 1 / 2]], started := True\<rparr>))
      = Some True
   \<and> map_option (partialBufferSamples \<circ> fst)
        (renderTick 24000 128
           (constructor 24000\<lparr>frames := [[1 / 2, 1 / 2]], started := True\<rparr>))
      = Some 240
   \<and> map_option (take 3 \<circ> snd)
        (renderTick 24000 128
           (constructor 24000\<lparr>frames := [[1 / 2, 1 / 2]], started := True\<rparr>))
      = Some [1 / 2, 1 / 2, 0]"
proof -
  define s where "s = constructor 24000\<lparr>frames := [[1 / 2, 1 / 2]], started := True\<rparr>"
  have ok: "queue_ok s" by (simp add: s_def queue_ok_def constructor_24000)
  have cp: "canPlay s" by (simp add: s_def canPlay_def constructor_24000)
  have q: "queued s = [1 / 2, 1 / 2]" by (simp add: s_def queued_def constructor_24000)
  have k: "min 128 (length (queued s)) = 2" by (simp add: q)
  have au: "list_ex audible (take 2 (queued s)) = True" by (simp add: q audible_def)
  have fo: "firstOut s = False" by (simp add: s_def constructor_24000)
  define delay where "delay = real_of_int (currentSamples s) / 24000"
  obtain s' where rt: "renderTick 24000 128 s = Some (s', take 2 (queued s) @ replicate (128 - 2) 0)"
    and rec: "s' = s\<lparr>maxDelay := max (maxDelay s) delay, minDelay := min (minDelay s) delay,
                frames := frames s', offsetInFirstBuffer := offsetInFirstBuffer s',
                firstOut := False,
                partialBufferSamples := partialBufferSamples s,
                started := True,
                totalAudioPlayed := totalAudioPlayed s + real 128 / 24000,
                actualAudioPlayed := actualAudioPlayed s + real 2 / 24000,
                timeInStream := timeInStream s + real 2 / 24000\<rparr>"
    using process_play [OF ok cp, of 24000 128]
    unfolding k au fo delay_def [symmetric] by auto
  have "started s'" "partialBufferSamples s' = partialBufferSamples s"
    by (subst rec, simp)+
  then have "started s' = True" "partialBufferSamples s' = 240"
    by (simp_all add: s_def constructor_24000)
  moreover have "take 3 (take 2 (queued s) @ replicate (128 - 2) 0) = [1 / 2, 1 / 2, 0]"
    by (simp add: q)
  ultimately show ?thesis
    using rt cp unfolding s_def [symmetric] by simp
qed

end
